theory Spec2Isabelle
  imports Complex_Main
begin

section \<open>Node objects, annotations and labels\<close>

text \<open>
  A Go \<open>map[string]string\<close> is a partial map; the nil map is \<open>None\<close>. Reading a nil
  map yields "absent", \<open>delete\<close> on it does nothing, and assigning to one of its entries
  panics. Label and annotation maps of a node decoded from the API are nil when the
  object carries none.
\<close>

type_synonym gomap = "(string \<rightharpoonup> string) option"

definition map_index :: "gomap \<Rightarrow> string \<Rightarrow> string option" where
  "map_index m key = (case m of None \<Rightarrow> None | Some f \<Rightarrow> f key)"

definition map_delete :: "gomap \<Rightarrow> string \<Rightarrow> gomap" where
  "map_delete m key = (case m of None \<Rightarrow> None | Some f \<Rightarrow> Some (f(key := None)))"

text \<open>\<open>m[key] = v\<close>; the result \<open>None\<close> is the runtime panic on a nil map.\<close>

definition map_assign :: "gomap \<Rightarrow> string \<Rightarrow> string \<Rightarrow> gomap option" where
  "map_assign m key v = (case m of None \<Rightarrow> None | Some f \<Rightarrow> Some (Some (f(key \<mapsto> v))))"

text \<open>\<open>for _, a := range annotations { delete(m, a) }\<close>\<close>

fun delete_all :: "string list \<Rightarrow> gomap \<Rightarrow> gomap" where
  "delete_all [] m = m"
| "delete_all (a # as) m = delete_all as (map_delete m a)"

record Node =
  Name :: string
  Labels :: gomap
  Annotations :: gomap

text \<open>
  Modelled from the spec: package \<open>constants\<close> is not among the sources. The keys are
  the ones the spec's annotation and label schema lists; the operator compares values
  with the strings "true" and "false".
\<close>

definition constTrue :: string where "constTrue = ''true''"
definition constFalse :: string where "constFalse = ''false''"
definition AnnotationOkToReboot :: string where "AnnotationOkToReboot = ''reboot-ok''"
definition AnnotationRebootNeeded :: string where "AnnotationRebootNeeded = ''reboot-needed''"
definition AnnotationRebootInProgress :: string where
  "AnnotationRebootInProgress = ''reboot-in-progress''"
definition AnnotationRebootPaused :: string where "AnnotationRebootPaused = ''reboot-paused''"
definition LabelBeforeReboot :: string where "LabelBeforeReboot = ''before-reboot''"
definition LabelAfterReboot :: string where "LabelAfterReboot = ''after-reboot''"

definition maxRebootingNodes :: int where "maxRebootingNodes = 1"

section \<open>Selectors\<close>

text \<open>
  Field selectors of the Kubernetes library: a conjunction of terms \<open>field == value\<close>
  and \<open>field != value\<close>, matched against \<open>fields.Set\<close>, whose \<open>Get\<close> reads the map and
  so yields the empty string for an absent key.
\<close>

datatype selector_term = hasTerm string string | notHasTerm string string

type_synonym Selector = "selector_term list"

definition fields_Get :: "gomap \<Rightarrow> string \<Rightarrow> string" where
  "fields_Get m field = (case map_index m field of None \<Rightarrow> [] | Some v \<Rightarrow> v)"

fun term_Matches :: "selector_term \<Rightarrow> gomap \<Rightarrow> bool" where
  "term_Matches (hasTerm field v) ls = (fields_Get ls field = v)"
| "term_Matches (notHasTerm field v) ls = (fields_Get ls field \<noteq> v)"

definition Matches :: "Selector \<Rightarrow> gomap \<Rightarrow> bool" where
  "Matches sel ls = list_all (\<lambda>t. term_Matches t ls) sel"

definition justRebootedSelector :: Selector where
  "justRebootedSelector =
     [hasTerm AnnotationOkToReboot constTrue,
      hasTerm AnnotationRebootNeeded constFalse,
      hasTerm AnnotationRebootInProgress constFalse]"

definition wantsRebootSelector :: Selector where
  "wantsRebootSelector =
     [hasTerm AnnotationRebootNeeded constTrue,
      notHasTerm AnnotationRebootPaused constTrue,
      notHasTerm AnnotationOkToReboot constTrue,
      notHasTerm AnnotationRebootInProgress constTrue]"

definition stillRebootingSelector :: Selector where
  "stillRebootingSelector =
     [hasTerm AnnotationOkToReboot constTrue,
      hasTerm AnnotationRebootNeeded constTrue]"

text \<open>
  Label requirements of the Kubernetes library: \<open>In\<close> holds when the key is present
  with one of the values, \<open>NotIn\<close> when the key is absent or has none of them.
\<close>

datatype Operator = selection_In | selection_NotIn

record Requirement =
  key :: string
  operator :: Operator
  strValues :: "string list"

definition req_Matches :: "Requirement \<Rightarrow> gomap \<Rightarrow> bool" where
  "req_Matches r ls =
     (case operator r of
        selection_In \<Rightarrow>
          (case map_index ls (key r) of None \<Rightarrow> False | Some v \<Rightarrow> v \<in> set (strValues r))
      | selection_NotIn \<Rightarrow>
          (case map_index ls (key r) of None \<Rightarrow> True | Some v \<Rightarrow> v \<notin> set (strValues r)))"

definition beforeRebootReq :: Requirement where
  "beforeRebootReq =
     \<lparr>key = LabelBeforeReboot, operator = selection_In, strValues = [constTrue]\<rparr>"

definition afterRebootReq :: Requirement where
  "afterRebootReq =
     \<lparr>key = LabelAfterReboot, operator = selection_In, strValues = [constTrue]\<rparr>"

definition notBeforeRebootReq :: Requirement where
  "notBeforeRebootReq =
     \<lparr>key = LabelBeforeReboot, operator = selection_NotIn, strValues = [constTrue]\<rparr>"

definition notAfterRebootReq :: Requirement where
  "notAfterRebootReq =
     \<lparr>key = LabelAfterReboot, operator = selection_NotIn, strValues = [constTrue]\<rparr>"

text \<open>
  Modelled from the spec: \<open>k8sutil.FilterNodesByAnnotation\<close> and
  \<open>k8sutil.FilterNodesByRequirement\<close> are not among the sources. Per the spec each
  selection is a predicate on a single node, applied to the list in list order.
\<close>

definition FilterNodesByAnnotation :: "Node list \<Rightarrow> Selector \<Rightarrow> Node list" where
  "FilterNodesByAnnotation list sel = filter (\<lambda>n. Matches sel (Annotations n)) list"

definition FilterNodesByRequirement :: "Node list \<Rightarrow> Requirement \<Rightarrow> Node list" where
  "FilterNodesByRequirement list req = filter (\<lambda>n. req_Matches req (Labels n)) list"

fun hasAllAnnotations :: "Node \<Rightarrow> string list \<Rightarrow> bool" where
  "hasAllAnnotations node [] = True"
| "hasAllAnnotations node (annotation # annotations) =
     (case map_index (Annotations node) annotation of
        None \<Rightarrow> False
      | Some v \<Rightarrow> if v \<noteq> constTrue then False else hasAllAnnotations node annotations)"

section \<open>The operator and its admission policy\<close>

text \<open>
  \<open>timeutil.Periodic\<close> belongs to an external library; the operator only calls its
  \<open>Previous\<close> method, so a configured window is that method: from a reference time to
  the most recent occurrence of the window. Times are integers (nanoseconds).
\<close>

record Period =
  Start :: int
  End :: int

type_synonym Periodic = "int \<Rightarrow> Period"

record Kontroller =
  beforeRebootAnnotations :: "string list"
  afterRebootAnnotations :: "string list"
  rebootWindow :: "Periodic option"

definition After :: "int \<Rightarrow> int \<Rightarrow> bool" where
  "After t u = (t > u)"

text \<open>
  \<open>insideRebootWindow\<close> reads the clock twice; \<open>now1\<close> is the reading passed to
  \<open>Previous\<close>, \<open>now2\<close> the one compared with the end of the period.
\<close>

definition insideRebootWindow :: "Kontroller \<Rightarrow> int \<Rightarrow> int \<Rightarrow> bool" where
  "insideRebootWindow k now1 now2 =
     (case rebootWindow k of
        None \<Rightarrow> True
      | Some w \<Rightarrow> (let period = w now1 in \<not> (After (End period) now2)))"

definition remainingRebootingCapacity :: "Node list \<Rightarrow> int" where
  "remainingRebootingCapacity items =
     (let rebootingNodes = FilterNodesByAnnotation items stillRebootingSelector;
          beforeRebootNodes = FilterNodesByRequirement items beforeRebootReq;
          afterRebootNodes = FilterNodesByRequirement items afterRebootReq;
          rebootingNodes = (rebootingNodes @ beforeRebootNodes) @ afterRebootNodes
      in maxRebootingNodes - int (length rebootingNodes))"

text \<open>
  The predicates of the spec on a single node, the three sets of its admission policy,
  and its \<open>remainingCapacity\<close> as the spec words it: every node of the list that is in at least one of the sets is counted
  once, and the result is clamped at 0.
\<close>

definition stillRebooting :: "Node \<Rightarrow> bool" where
  "stillRebooting n = Matches stillRebootingSelector (Annotations n)"

definition hasPreLabel :: "Node \<Rightarrow> bool" where
  "hasPreLabel n = req_Matches beforeRebootReq (Labels n)"

definition hasPostLabel :: "Node \<Rightarrow> bool" where
  "hasPostLabel n = req_Matches afterRebootReq (Labels n)"

definition justRebooted :: "Node \<Rightarrow> bool" where
  "justRebooted n = Matches justRebootedSelector (Annotations n)"

definition wantsReboot_minus_label :: "Node \<Rightarrow> bool" where
  "wantsReboot_minus_label n = Matches wantsRebootSelector (Annotations n)"

text \<open>
  The logical phases of the spec's data model. A node is idle when none of the
  markers applies.
\<close>

definition WantsReboot :: "Node \<Rightarrow> bool" where
  "WantsReboot n = (wantsReboot_minus_label n \<and> \<not> hasPreLabel n)"

definition JustRebooted :: "Node \<Rightarrow> bool" where
  "JustRebooted n = (justRebooted n \<and> \<not> hasPostLabel n)"

definition Idle :: "Node \<Rightarrow> bool" where
  "Idle n = (\<not> WantsReboot n \<and> \<not> hasPreLabel n \<and> \<not> stillRebooting n
             \<and> \<not> JustRebooted n \<and> \<not> hasPostLabel n)"

definition inFlight :: "Node \<Rightarrow> bool" where
  "inFlight n = (stillRebooting n \<or> hasPreLabel n \<or> hasPostLabel n)"

definition spec_remainingCapacity :: "Node list \<Rightarrow> int" where
  "spec_remainingCapacity items =
     max 0 (maxRebootingNodes - int (length (filter inFlight items)))"

section \<open>Conflict retry\<close>

text \<open>
  Errors are values. \<open>Conflict\<close> is an API status error for which \<open>errors.IsConflict\<close>
  holds, \<open>StatusError\<close> any other error of the API client, \<open>ErrWaitTimeout\<close> the value
  \<open>wait.ErrWaitTimeout\<close>. \<open>Panic\<close> stands for a runtime panic: every caller in this
  program returns at once on an error, so a panic travels the same way an error does
  and ends the pass without a further write.
\<close>

datatype error = Conflict string | StatusError string | ErrWaitTimeout | Panic

definition IsConflict :: "error \<Rightarrow> bool" where
  "IsConflict err = (case err of Conflict msg \<Rightarrow> True | _ \<Rightarrow> False)"

text \<open>
  \<open>wait.Backoff\<close>: the duration is in nanoseconds; factor and jitter are the decimal
  constants of the source.
\<close>

record Backoff =
  Steps :: int
  Duration :: int
  Factor :: rat
  Jitter :: rat

definition Millisecond :: int where "Millisecond = 1000000"

definition DefaultRetry :: Backoff where
  "DefaultRetry = \<lparr>Steps = 5, Duration = 10 * Millisecond, Factor = 1, Jitter = 1 / 10\<rparr>"

definition DefaultBackoff :: Backoff where
  "DefaultBackoff = \<lparr>Steps = 4, Duration = 10 * Millisecond, Factor = 5, Jitter = 1 / 10\<rparr>"

text \<open>
  Modelled from the spec: \<open>wait.ExponentialBackoff\<close> belongs to the Kubernetes library
  and is not among the sources. It calls the condition up to \<open>Steps\<close> times, sleeping in
  between (the sleep is not part of the model); it returns as soon as the condition
  reports an error or success, and \<open>ErrWaitTimeout\<close> when the steps are used up.
\<close>

fun backoff_loop ::
  "nat \<Rightarrow> ('s \<Rightarrow> (bool \<times> error option) \<times> 's) \<Rightarrow> 's \<Rightarrow> error option \<times> 's" where
  "backoff_loop 0 condition s = (Some ErrWaitTimeout, s)"
| "backoff_loop (Suc steps) condition s =
     (case condition s of
        ((ok, err), s') \<Rightarrow>
          if err \<noteq> None \<or> ok then (err, s') else backoff_loop steps condition s')"

definition ExponentialBackoff ::
  "Backoff \<Rightarrow> ('s \<Rightarrow> (bool \<times> error option) \<times> 's) \<Rightarrow> 's \<Rightarrow> error option \<times> 's" where
  "ExponentialBackoff backoff condition s = backoff_loop (nat (Steps backoff)) condition s"

text \<open>
  \<open>RetryOnConflict\<close>. The callback \<open>fn\<close> acts on a state \<open>'s\<close>; the variable
  \<open>lastConflictErr\<close>, which the condition closure writes, is carried next to it.
  \<open>retry_condition\<close> is that closure.
\<close>

definition retry_condition ::
  "('s \<Rightarrow> error option \<times> 's) \<Rightarrow> error option \<times> 's
   \<Rightarrow> (bool \<times> error option) \<times> (error option \<times> 's)" where
  "retry_condition fn = (\<lambda>(lastConflictErr, s).
     case fn s of
       (None, s') \<Rightarrow> ((True, None), (lastConflictErr, s'))
     | (Some err, s') \<Rightarrow>
         if IsConflict err then ((False, None), (Some err, s'))
         else ((False, Some err), (lastConflictErr, s')))"

definition RetryOnConflict ::
  "Backoff \<Rightarrow> ('s \<Rightarrow> error option \<times> 's) \<Rightarrow> 's \<Rightarrow> error option \<times> 's" where
  "RetryOnConflict backoff fn s =
     (case ExponentialBackoff backoff (retry_condition fn) (None, s) of
        (err, (lastConflictErr, s')) \<Rightarrow>
          (if err = Some ErrWaitTimeout then lastConflictErr else err, s'))"

text \<open>
  The attempts of a run: \<open>state_after fn s i\<close> is the state after \<open>i\<close> calls of the
  callback, \<open>attempt fn s i\<close> what call number \<open>i\<close> (from 0) returns.
\<close>

fun state_after :: "('s \<Rightarrow> error option \<times> 's) \<Rightarrow> 's \<Rightarrow> nat \<Rightarrow> 's" where
  "state_after fn s 0 = s"
| "state_after fn s (Suc i) = state_after fn (snd (fn s)) i"

definition attempt :: "('s \<Rightarrow> error option \<times> 's) \<Rightarrow> 's \<Rightarrow> nat \<Rightarrow> error option" where
  "attempt fn s i = fst (fn (state_after fn s i))"

section \<open>The object store\<close>

text \<open>
  Modelled from the spec: the node client is the object store of the spec, with list,
  get and update. The store holds the nodes in list order. Each call first takes the
  next entry of \<open>responses\<close>, which says whether the store serves the call, rejects it
  with a conflict or rejects it with another API error (a timeout, a lost connection);
  when the entries are used up every call is served. A rejected call changes no node.
\<close>

datatype response = Served | Conflicted string | Failed string

record Cluster =
  nodes :: "Node list"
  responses :: "response list"

definition next_response :: "Cluster \<Rightarrow> error option \<times> Cluster" where
  "next_response c =
     (case responses c of
        [] \<Rightarrow> (None, c)
      | Served # rs \<Rightarrow> (None, c\<lparr>responses := rs\<rparr>)
      | Conflicted msg # rs \<Rightarrow> (Some (Conflict msg), c\<lparr>responses := rs\<rparr>)
      | Failed msg # rs \<Rightarrow> (Some (StatusError msg), c\<lparr>responses := rs\<rparr>))"

fun put_node :: "Node \<Rightarrow> Node list \<Rightarrow> Node list" where
  "put_node node [] = []"
| "put_node node (n # ns) = (if Name n = Name node then node # ns else n # put_node node ns)"

definition nc_List :: "Cluster \<Rightarrow> (error + Node list) \<times> Cluster" where
  "nc_List c =
     (case next_response c of
        (Some err, c') \<Rightarrow> (Inl err, c')
      | (None, c') \<Rightarrow> (Inr (nodes c'), c'))"

definition nc_Get :: "string \<Rightarrow> Cluster \<Rightarrow> (error + Node) \<times> Cluster" where
  "nc_Get name c =
     (case next_response c of
        (Some err, c') \<Rightarrow> (Inl err, c')
      | (None, c') \<Rightarrow>
          (case find (\<lambda>n. Name n = name) (nodes c') of
             None \<Rightarrow> (Inl (StatusError ''not found''), c')
           | Some n \<Rightarrow> (Inr n, c')))"

definition nc_Update :: "Node \<Rightarrow> Cluster \<Rightarrow> error option \<times> Cluster" where
  "nc_Update node c =
     (case next_response c of
        (Some err, c') \<Rightarrow> (Some err, c')
      | (None, c') \<Rightarrow>
          if Name node \<in> set (map Name (nodes c'))
          then (None, c'\<lparr>nodes := put_node node (nodes c')\<rparr>)
          else (Some (StatusError ''not found''), c'))"

text \<open>
  Modelled from the spec: \<open>k8sutil.UpdateNodeRetry\<close> is not among the sources. Per the
  spec it re-reads the node, applies the transformation and tries to persist the
  result, under \<open>RetryOnConflict\<close> with \<open>DefaultRetry\<close>. \<open>update_attempt\<close> is one such
  attempt; the transformation returns \<open>None\<close> when it panics.
\<close>

definition update_attempt ::
  "string \<Rightarrow> (Node \<Rightarrow> Node option) \<Rightarrow> Cluster \<Rightarrow> error option \<times> Cluster" where
  "update_attempt node f c =
     (case nc_Get node c of
        (Inl getErr, c') \<Rightarrow> (Some getErr, c')
      | (Inr n, c') \<Rightarrow>
          (case f n of
             None \<Rightarrow> (Some Panic, c')
           | Some n' \<Rightarrow> nc_Update n' c'))"

definition UpdateNodeRetry ::
  "string \<Rightarrow> (Node \<Rightarrow> Node option) \<Rightarrow> Cluster \<Rightarrow> error option \<times> Cluster" where
  "UpdateNodeRetry node f c = RetryOnConflict DefaultRetry (update_attempt node f) c"

text \<open>
  What one served attempt does to the list of nodes: the first node of that name is
  replaced by its transform. There is no result when the node is missing or the
  transformation panics.
\<close>

definition update_node :: "string \<Rightarrow> (Node \<Rightarrow> Node option) \<Rightarrow> Node list \<Rightarrow> Node list option" where
  "update_node name f ns =
     (case find (\<lambda>n. Name n = name) ns of
        None \<Rightarrow> None
      | Some n \<Rightarrow>
          (case f n of
             None \<Rightarrow> None
           | Some n' \<Rightarrow> if Name n' \<in> set (map Name ns) then Some (put_node n' ns) else None))"

section \<open>The reconciler\<close>

text \<open>\<open>for _, n := range list { err = body(n); if err != nil { return err } }\<close>\<close>

fun range_nodes ::
  "(Node \<Rightarrow> Cluster \<Rightarrow> error option \<times> Cluster) \<Rightarrow> Node list \<Rightarrow> Cluster
   \<Rightarrow> error option \<times> Cluster" where
  "range_nodes body [] c = (None, c)"
| "range_nodes body (n # ns) c =
     (case body n c of
        (Some err, c') \<Rightarrow> (Some err, c')
      | (None, c') \<Rightarrow> range_nodes body ns c')"

text \<open>The function literal that \<open>cleanupState\<close> hands to \<open>UpdateNodeRetry\<close>.\<close>

definition cleanupState_update :: "Kontroller \<Rightarrow> Node \<Rightarrow> Node option" where
  "cleanupState_update k node =
     (if map_index (Labels node) LabelBeforeReboot \<noteq> None
      then (if \<not> Matches wantsRebootSelector (Annotations node)
            then Some (node\<lparr>Labels := map_delete (Labels node) LabelBeforeReboot,
                            Annotations :=
                              delete_all (beforeRebootAnnotations k) (Annotations node)\<rparr>)
            else Some node)
      else Some node)"

definition cleanupState :: "Kontroller \<Rightarrow> Cluster \<Rightarrow> error option \<times> Cluster" where
  "cleanupState k c =
     (case nc_List c of
        (Inl err, c') \<Rightarrow> (Some err, c')
      | (Inr items, c') \<Rightarrow>
          range_nodes (\<lambda>n. UpdateNodeRetry (Name n) (cleanupState_update k)) items c')"

text \<open>The function literal of \<open>checkBeforeReboot\<close>.\<close>

definition checkBeforeReboot_update :: "Kontroller \<Rightarrow> Node \<Rightarrow> Node option" where
  "checkBeforeReboot_update k node =
     (case map_assign (delete_all (beforeRebootAnnotations k) (Annotations node))
             AnnotationOkToReboot constTrue of
        None \<Rightarrow> None
      | Some annotations \<Rightarrow>
          Some (node\<lparr>Labels := map_delete (Labels node) LabelBeforeReboot,
                     Annotations := annotations\<rparr>))"

text \<open>
  The body of the loop of \<open>checkBeforeReboot\<close>: \<open>n\<close> is the node as it was listed,
  \<open>c\<close> the store at the time of the update.
\<close>

definition checkBeforeReboot_node ::
  "Kontroller \<Rightarrow> Node \<Rightarrow> Cluster \<Rightarrow> error option \<times> Cluster" where
  "checkBeforeReboot_node k n c =
     (if hasAllAnnotations n (beforeRebootAnnotations k)
      then UpdateNodeRetry (Name n) (checkBeforeReboot_update k) c
      else (None, c))"

definition checkBeforeReboot :: "Kontroller \<Rightarrow> Cluster \<Rightarrow> error option \<times> Cluster" where
  "checkBeforeReboot k c =
     (case nc_List c of
        (Inl err, c') \<Rightarrow> (Some err, c')
      | (Inr items, c') \<Rightarrow>
          (let preRebootNodes = FilterNodesByRequirement items beforeRebootReq
           in range_nodes (checkBeforeReboot_node k) preRebootNodes c'))"

text \<open>The function literal of \<open>checkAfterReboot\<close>.\<close>

definition checkAfterReboot_update :: "Kontroller \<Rightarrow> Node \<Rightarrow> Node option" where
  "checkAfterReboot_update k node =
     (case map_assign (delete_all (afterRebootAnnotations k) (Annotations node))
             AnnotationOkToReboot constFalse of
        None \<Rightarrow> None
      | Some annotations \<Rightarrow>
          Some (node\<lparr>Labels := map_delete (Labels node) LabelAfterReboot,
                     Annotations := annotations\<rparr>))"

text \<open>The body of the loop of \<open>checkAfterReboot\<close>.\<close>

definition checkAfterReboot_node ::
  "Kontroller \<Rightarrow> Node \<Rightarrow> Cluster \<Rightarrow> error option \<times> Cluster" where
  "checkAfterReboot_node k n c =
     (if hasAllAnnotations n (afterRebootAnnotations k)
      then UpdateNodeRetry (Name n) (checkAfterReboot_update k) c
      else (None, c))"

definition checkAfterReboot :: "Kontroller \<Rightarrow> Cluster \<Rightarrow> error option \<times> Cluster" where
  "checkAfterReboot k c =
     (case nc_List c of
        (Inl err, c') \<Rightarrow> (Some err, c')
      | (Inr items, c') \<Rightarrow>
          (let postRebootNodes = FilterNodesByRequirement items afterRebootReq
           in range_nodes (checkAfterReboot_node k) postRebootNodes c'))"

definition nodesRequiringReboot :: "Node list \<Rightarrow> Node list" where
  "nodesRequiringReboot items =
     (let rebootableNodes = FilterNodesByAnnotation items wantsRebootSelector
      in FilterNodesByRequirement rebootableNodes notBeforeRebootReq)"

text \<open>
  \<open>rebootableNodes\<close> allocates \<open>make([]*corev1.Node, 0, remainingCapacity)\<close>, which
  panics at run time when the capacity is negative; the result is \<open>None\<close> then. The
  loop takes the first \<open>remainingCapacity\<close> nodes requiring a reboot, or all of them
  when there are fewer.
\<close>

definition rebootableNodes :: "Node list \<Rightarrow> Node list option" where
  "rebootableNodes items =
     (let remainingCapacity = remainingRebootingCapacity items;
          nodesRequiringReboot = nodesRequiringReboot items
      in if remainingCapacity < 0 then None
         else Some (take (nat remainingCapacity) nodesRequiringReboot))"

text \<open>The function literal of \<open>mark\<close>, and \<open>mark\<close> without its log lines.\<close>

definition mark_update :: "string \<Rightarrow> string list \<Rightarrow> Node \<Rightarrow> Node option" where
  "mark_update label annotations node =
     (case map_assign (Labels node) label constTrue of
        None \<Rightarrow> None
      | Some labels \<Rightarrow>
          Some (node\<lparr>Annotations := delete_all annotations (Annotations node),
                     Labels := labels\<rparr>))"

definition mark :: "string \<Rightarrow> string \<Rightarrow> string list \<Rightarrow> Cluster \<Rightarrow> error option \<times> Cluster" where
  "mark nodeName label annotations c =
     UpdateNodeRetry nodeName (mark_update label annotations) c"

definition markBeforeReboot ::
  "Kontroller \<Rightarrow> int \<Rightarrow> int \<Rightarrow> Cluster \<Rightarrow> error option \<times> Cluster" where
  "markBeforeReboot k now1 now2 c =
     (case nc_List c of
        (Inl err, c') \<Rightarrow> (Some err, c')
      | (Inr items, c') \<Rightarrow>
          if \<not> insideRebootWindow k now1 now2 then (None, c')
          else (case rebootableNodes items of
                  None \<Rightarrow> (Some Panic, c')
                | Some chosenNodes \<Rightarrow>
                    range_nodes
                      (\<lambda>n. mark (Name n) LabelBeforeReboot (beforeRebootAnnotations k))
                      chosenNodes c'))"

definition markAfterReboot :: "Kontroller \<Rightarrow> Cluster \<Rightarrow> error option \<times> Cluster" where
  "markAfterReboot k c =
     (case nc_List c of
        (Inl err, c') \<Rightarrow> (Some err, c')
      | (Inr items, c') \<Rightarrow>
          (let justRebootedNodes = FilterNodesByAnnotation items justRebootedSelector;
               justRebootedNodes = FilterNodesByRequirement justRebootedNodes notAfterRebootReq
           in range_nodes
                (\<lambda>n. mark (Name n) LabelAfterReboot (afterRebootAnnotations k))
                justRebootedNodes c'))"

text \<open>
  One pass. \<open>process\<close> returns nothing in the source; here it returns the error it
  logged, if any, next to the store it leaves behind. \<open>now1\<close> and \<open>now2\<close> are the two
  clock readings of \<open>insideRebootWindow\<close>.
\<close>

definition process :: "Kontroller \<Rightarrow> int \<Rightarrow> int \<Rightarrow> Cluster \<Rightarrow> error option \<times> Cluster" where
  "process k now1 now2 c =
     (case cleanupState k c of
        (Some err, c1) \<Rightarrow> (Some err, c1)
      | (None, c1) \<Rightarrow>
     (case checkAfterReboot k c1 of
        (Some err, c2) \<Rightarrow> (Some err, c2)
      | (None, c2) \<Rightarrow>
     (case markAfterReboot k c2 of
        (Some err, c3) \<Rightarrow> (Some err, c3)
      | (None, c3) \<Rightarrow>
     (case checkBeforeReboot k c3 of
        (Some err, c4) \<Rightarrow> (Some err, c4)
      | (None, c4) \<Rightarrow> markBeforeReboot k now1 now2 c4))))"

text \<open>
  The pass as a function on the list of nodes, for a store that serves every call:
  the five phases one after the other, each applying its function literal to the
  nodes it selects. \<open>updated f n\<close> is \<open>n\<close> after \<open>f\<close>. The result of the last phase
  is \<open>None\<close> when \<open>rebootableNodes\<close> panics.
\<close>

definition updated :: "(Node \<Rightarrow> Node option) \<Rightarrow> Node \<Rightarrow> Node" where
  "updated f n = (case f n of None \<Rightarrow> n | Some n' \<Rightarrow> n')"

definition cleanup_nodes :: "Kontroller \<Rightarrow> Node list \<Rightarrow> Node list" where
  "cleanup_nodes k ns = map (updated (cleanupState_update k)) ns"

definition finish_post_check_nodes :: "Kontroller \<Rightarrow> Node list \<Rightarrow> Node list" where
  "finish_post_check_nodes k ns =
     map (\<lambda>m. if hasPostLabel m \<and> hasAllAnnotations m (afterRebootAnnotations k)
               then updated (checkAfterReboot_update k) m else m) ns"

definition enter_post_check_nodes :: "Kontroller \<Rightarrow> Node list \<Rightarrow> Node list" where
  "enter_post_check_nodes k ns =
     map (\<lambda>m. if justRebooted m \<and> \<not> hasPostLabel m
               then updated (mark_update LabelAfterReboot (afterRebootAnnotations k)) m
               else m) ns"

definition finish_pre_check_nodes :: "Kontroller \<Rightarrow> Node list \<Rightarrow> Node list" where
  "finish_pre_check_nodes k ns =
     map (\<lambda>m. if hasPreLabel m \<and> hasAllAnnotations m (beforeRebootAnnotations k)
               then updated (checkBeforeReboot_update k) m else m) ns"

definition enter_pre_check_nodes ::
  "Kontroller \<Rightarrow> int \<Rightarrow> int \<Rightarrow> Node list \<Rightarrow> Node list option" where
  "enter_pre_check_nodes k now1 now2 ns =
     (if \<not> insideRebootWindow k now1 now2 then Some ns
      else (case rebootableNodes ns of
              None \<Rightarrow> None
            | Some chosenNodes \<Rightarrow>
                Some (map (\<lambda>m. if m \<in> set chosenNodes
                                then updated (mark_update LabelBeforeReboot
                                                (beforeRebootAnnotations k)) m
                                else m) ns)))"

definition pass_nodes :: "Kontroller \<Rightarrow> int \<Rightarrow> int \<Rightarrow> Node list \<Rightarrow> Node list option" where
  "pass_nodes k now1 now2 ns =
     enter_pre_check_nodes k now1 now2
       (finish_pre_check_nodes k
          (enter_post_check_nodes k (finish_post_check_nodes k (cleanup_nodes k ns))))"

definition allocated :: "Node \<Rightarrow> bool" where
  "allocated n = (Labels n \<noteq> None \<and> Annotations n \<noteq> None)"

text \<open>
  A node on which the four node-wise phases of a pass have nothing to do: cleanup,
  finishing the post-check, entering the post-check and finishing the pre-check.
\<close>

definition settled :: "Kontroller \<Rightarrow> Node \<Rightarrow> bool" where
  "settled k n =
     ((map_index (Labels n) LabelBeforeReboot \<noteq> None \<longrightarrow> wantsReboot_minus_label n)
      \<and> (hasPostLabel n \<longrightarrow> \<not> hasAllAnnotations n (afterRebootAnnotations k))
      \<and> (justRebooted n \<longrightarrow> hasPostLabel n)
      \<and> (hasPreLabel n \<longrightarrow> \<not> hasAllAnnotations n (beforeRebootAnnotations k)))"

text \<open>
  Modelled from the spec: the agents are not among the sources. Per the spec an agent
  writes the annotations \<open>reboot-needed\<close> and \<open>reboot-in-progress\<close> of its own node.
  A schedule is a sequence of such writes and of passes of the operator; \<open>run\<close>
  carries it out on a store and has no result when one of its passes ends with an
  error. \<open>run_nodes\<close> is the same on the list of nodes alone.
\<close>

definition agent_sets :: "string \<Rightarrow> string \<Rightarrow> string \<Rightarrow> Node list \<Rightarrow> Node list" where
  "agent_sets name annotation v ns =
     map (\<lambda>n. if Name n = name
               then n\<lparr>Annotations :=
                        Some ((case Annotations n of None \<Rightarrow> Map.empty | Some f \<Rightarrow> f)
                              (annotation \<mapsto> v))\<rparr>
               else n) ns"

datatype event = AgentSets string string string | Pass int int

fun run :: "Kontroller \<Rightarrow> event list \<Rightarrow> Cluster \<Rightarrow> Cluster option" where
  "run k [] c = Some c"
| "run k (AgentSets name annotation v # es) c =
     run k es (c\<lparr>nodes := agent_sets name annotation v (nodes c)\<rparr>)"
| "run k (Pass now1 now2 # es) c =
     (case process k now1 now2 c of
        (Some err, c') \<Rightarrow> None
      | (None, c') \<Rightarrow> run k es c')"

fun run_nodes :: "Kontroller \<Rightarrow> event list \<Rightarrow> Node list \<Rightarrow> Node list option" where
  "run_nodes k [] ns = Some ns"
| "run_nodes k (AgentSets name annotation v # es) ns =
     run_nodes k es (agent_sets name annotation v ns)"
| "run_nodes k (Pass now1 now2 # es) ns =
     (case pass_nodes k now1 now2 ns of
        None \<Rightarrow> None
      | Some ns' \<Rightarrow> run_nodes k es ns')"

text \<open>A node object written down from its name, its labels and its annotations.\<close>

definition mk_node ::
  "string \<Rightarrow> (string \<times> string) list \<Rightarrow> (string \<times> string) list \<Rightarrow> Node" where
  "mk_node name labels annotations =
     \<lparr>Name = name, Labels = Some (map_of labels), Annotations = Some (map_of annotations)\<rparr>"

section \<open>The reboot window\<close>

lemma insideRebootWindow_unconfigured:
  "rebootWindow k = None \<Longrightarrow> insideRebootWindow k now1 now2"
  by (simp add: insideRebootWindow_def)

lemma insideRebootWindow_configured:
  "rebootWindow k = Some w \<Longrightarrow> insideRebootWindow k now1 now2 = (End (w now1) \<le> now2)"
  by (simp add: insideRebootWindow_def After_def not_less)

text \<open>
  Claim C1. With a window configured, \<open>insideWindow(now)\<close> should be true exactly when
  the end of the most recent occurrence is strictly after now. The window below has its
  most recent occurrence at time 1800 running from 0 to 3600, so its end is strictly
  after now; the function answers false. It answers true once the occurrence has ended.
\<close>

theorem insideRebootWindow_inverted:
  "After (End \<lparr>Start = 0, End = 3600\<rparr>) 1800
   \<and> insideRebootWindow
        \<lparr>beforeRebootAnnotations = [], afterRebootAnnotations = [],
         rebootWindow = Some (\<lambda>now. \<lparr>Start = 0, End = 3600\<rparr>)\<rparr> 1800 1800 = False
   \<and> insideRebootWindow
        \<lparr>beforeRebootAnnotations = [], afterRebootAnnotations = [],
         rebootWindow = Some (\<lambda>now. \<lparr>Start = 0, End = 3600\<rparr>)\<rparr> 7200 7200 = True"
  by (simp add: insideRebootWindow_def After_def)

section \<open>Remaining capacity\<close>

lemma remainingRebootingCapacity_sum:
  "remainingRebootingCapacity items =
     maxRebootingNodes
       - (int (length (filter stillRebooting items))
          + int (length (filter hasPreLabel items))
          + int (length (filter hasPostLabel items)))"
proof -
  have "stillRebooting = (\<lambda>n. Matches stillRebootingSelector (Annotations n))"
    and "hasPreLabel = (\<lambda>n. req_Matches beforeRebootReq (Labels n))"
    and "hasPostLabel = (\<lambda>n. req_Matches afterRebootReq (Labels n))"
    by (simp_all add: fun_eq_iff stillRebooting_def hasPreLabel_def hasPostLabel_def)
  then show ?thesis
    by (simp add: remainingRebootingCapacity_def FilterNodesByAnnotation_def
        FilterNodesByRequirement_def Let_def)
qed

lemma length_filter_disj_le:
  "length (filter (\<lambda>x. P x \<or> Q x) xs) \<le> length (filter P xs) + length (filter Q xs)"
  by (induction xs) auto

lemma inFlight_le_counted:
  "length (filter inFlight items)
     \<le> length (filter stillRebooting items) + length (filter hasPreLabel items)
        + length (filter hasPostLabel items)"
proof -
  have "length (filter inFlight items)
          \<le> length (filter stillRebooting items)
             + length (filter (\<lambda>n. hasPreLabel n \<or> hasPostLabel n) items)"
    unfolding inFlight_def by (rule length_filter_disj_le)
  also have "length (filter (\<lambda>n. hasPreLabel n \<or> hasPostLabel n) items)
          \<le> length (filter hasPreLabel items) + length (filter hasPostLabel items)"
    by (rule length_filter_disj_le)
  finally show ?thesis by simp
qed

lemma counted_le_one_eq_inFlight:
  "length (filter stillRebooting items) + length (filter hasPreLabel items)
     + length (filter hasPostLabel items) \<le> 1
   \<Longrightarrow> length (filter inFlight items)
       = length (filter stillRebooting items) + length (filter hasPreLabel items)
         + length (filter hasPostLabel items)"
proof (induction items)
  case Nil
  then show ?case by simp
next
  case (Cons n ns)
  show ?case
  proof (cases "inFlight n")
    case False
    with Cons show ?thesis by (simp add: inFlight_def)
  next
    case True
    with Cons.prems have rest:
      "length (filter stillRebooting ns) + length (filter hasPreLabel ns)
         + length (filter hasPostLabel ns) = 0"
      by (auto simp: inFlight_def split: if_splits)
    have "length (filter inFlight ns) = 0"
      using inFlight_le_counted [of ns] rest by simp
    moreover from True Cons.prems rest
    have "(if stillRebooting n then 1 else 0) + (if hasPreLabel n then 1 else 0)
            + (if hasPostLabel n then 1 else 0) = (1::nat)"
      by (auto simp: inFlight_def split: if_splits)
    ultimately show ?thesis
      using True rest by (simp split: if_splits)
  qed
qed

lemma remainingRebootingCapacity_agreement:
  "(remainingRebootingCapacity items = spec_remainingCapacity items)
     = (length (filter stillRebooting items) + length (filter hasPreLabel items)
          + length (filter hasPostLabel items) \<le> 1)"
  "(remainingRebootingCapacity items < 0)
     = (1 < length (filter stillRebooting items) + length (filter hasPreLabel items)
              + length (filter hasPostLabel items))"
  "(rebootableNodes items = None) = (remainingRebootingCapacity items < 0)"
proof -
  show "(remainingRebootingCapacity items = spec_remainingCapacity items)
     = (length (filter stillRebooting items) + length (filter hasPreLabel items)
          + length (filter hasPostLabel items) \<le> 1)"
  proof (cases "length (filter stillRebooting items) + length (filter hasPreLabel items)
          + length (filter hasPostLabel items) \<le> 1")
    case True
    from counted_le_one_eq_inFlight [OF this] this show ?thesis
      by (simp add: remainingRebootingCapacity_sum spec_remainingCapacity_def
          maxRebootingNodes_def)
  next
    case False
    then show ?thesis
      by (simp add: remainingRebootingCapacity_sum spec_remainingCapacity_def
          maxRebootingNodes_def)
  qed
  show "(remainingRebootingCapacity items < 0)
     = (1 < length (filter stillRebooting items) + length (filter hasPreLabel items)
              + length (filter hasPostLabel items))"
    by (auto simp: remainingRebootingCapacity_sum maxRebootingNodes_def)
  show "(rebootableNodes items = None) = (remainingRebootingCapacity items < 0)"
    by (simp add: rebootableNodes_def Let_def)
qed


section \<open>The retry loop\<close>

lemma attempt_Suc: "attempt fn s (Suc j) = attempt fn (snd (fn s)) j"
  by (simp add: attempt_def)

lemma backoff_loop_conflicts:
  "(\<And>j. j < i \<Longrightarrow> \<exists>e. attempt fn s j = Some e \<and> IsConflict e) \<Longrightarrow> i \<le> n \<Longrightarrow>
   backoff_loop n (retry_condition fn) (lastErr, s) =
   backoff_loop (n - i) (retry_condition fn)
     (if i = 0 then lastErr else attempt fn s (i - 1), state_after fn s i)"
proof (induction i arbitrary: n s lastErr)
  case 0
  then show ?case by simp
next
  case (Suc i)
  from Suc.prems(2) obtain m where n: "n = Suc m" and im: "i \<le> m"
    by (cases n) auto
  from Suc.prems(1) [of 0] obtain e where e: "fst (fn s) = Some e" "IsConflict e"
    by (auto simp: attempt_def)
  have later: "\<And>j. j < i \<Longrightarrow> \<exists>e. attempt fn (snd (fn s)) j = Some e \<and> IsConflict e"
    using Suc.prems(1) by (metis Suc_less_eq attempt_Suc)
  have step: "backoff_loop n (retry_condition fn) (lastErr, s) =
     backoff_loop m (retry_condition fn) (Some e, snd (fn s))"
    using e by (cases "fn s") (simp add: n retry_condition_def)
  have "attempt fn s 0 = Some e" using e by (simp add: attempt_def)
  then show ?case
    unfolding step using Suc.IH [OF later im, of "Some e"]
    by (cases i) (simp_all add: n attempt_Suc)
qed

lemma RetryOnConflict_success:
  assumes "\<And>j. j < i \<Longrightarrow> \<exists>e. attempt fn s j = Some e \<and> IsConflict e"
    and "i < nat (Steps backoff)" and "attempt fn s i = None"
  shows "RetryOnConflict backoff fn s = (None, state_after fn s (Suc i))"
proof -
  obtain m where m: "nat (Steps backoff) - i = Suc m"
    using assms(2) by (cases "nat (Steps backoff) - i") auto
  have sa: "state_after fn s (Suc i) = snd (fn (state_after fn s i))" for i
    by (induction i arbitrary: s) simp_all
  have "fst (fn (state_after fn s i)) = None"
    using assms(3) by (simp add: attempt_def)
  then have "backoff_loop (Suc m) (retry_condition fn) (e0, state_after fn s i)
      = (None, (e0, state_after fn s (Suc i)))" for e0
    unfolding sa by (cases "fn (state_after fn s i)") (simp add: retry_condition_def)
  then show ?thesis
    using backoff_loop_conflicts [of i fn s "nat (Steps backoff)" None, OF assms(1)] assms(2) m
    by (simp add: RetryOnConflict_def ExponentialBackoff_def)
qed

lemma RetryOnConflict_error:
  assumes "\<And>j. j < i \<Longrightarrow> \<exists>e. attempt fn s j = Some e \<and> IsConflict e"
    and "i < nat (Steps backoff)" and "attempt fn s i = Some err"
    and "\<not> IsConflict err" and "err \<noteq> ErrWaitTimeout"
  shows "RetryOnConflict backoff fn s = (Some err, state_after fn s (Suc i))"
proof -
  obtain m where m: "nat (Steps backoff) - i = Suc m"
    using assms(2) by (cases "nat (Steps backoff) - i") auto
  have sa: "state_after fn s (Suc i) = snd (fn (state_after fn s i))" for i
    by (induction i arbitrary: s) simp_all
  have "fst (fn (state_after fn s i)) = Some err"
    using assms(3) by (simp add: attempt_def)
  then have "backoff_loop (Suc m) (retry_condition fn) (e0, state_after fn s i)
      = (Some err, (e0, state_after fn s (Suc i)))" for e0
    unfolding sa using assms(4)
    by (cases "fn (state_after fn s i)") (simp add: retry_condition_def)
  then show ?thesis
    using backoff_loop_conflicts [of i fn s "nat (Steps backoff)" None, OF assms(1)] assms(2,5) m
    by (simp add: RetryOnConflict_def ExponentialBackoff_def)
qed

lemma RetryOnConflict_exhausted:
  assumes "\<And>j. j < nat (Steps backoff) \<Longrightarrow> \<exists>e. attempt fn s j = Some e \<and> IsConflict e"
    and "0 < Steps backoff"
  shows "RetryOnConflict backoff fn s
    = (attempt fn s (nat (Steps backoff) - 1), state_after fn s (nat (Steps backoff)))"
  using backoff_loop_conflicts [of "nat (Steps backoff)" fn s "nat (Steps backoff)" None, OF assms(1)]
    assms(2)
  by (simp add: RetryOnConflict_def ExponentialBackoff_def)

text \<open>
  Claim C9. \<open>DefaultRetry\<close> allows 5 steps with base duration 10 ms, factor 1 and jitter
  0.1. Under it \<open>RetryOnConflict\<close> calls the callback again only after a conflict: when
  the attempts before attempt \<open>i\<close> (one of the first five) all ended in a conflict, a
  success of attempt \<open>i\<close> returns no error and an error of attempt \<open>i\<close> that is not a
  conflict is returned as it is, in both cases after exactly \<open>i + 1\<close> calls; when all
  five attempts end in a conflict, the fifth conflict is returned after exactly five
  calls.
\<close>

theorem DefaultRetry_attempts:
  "Steps DefaultRetry = 5 \<and> Duration DefaultRetry = 10 * Millisecond
   \<and> Factor DefaultRetry = 1 \<and> Jitter DefaultRetry = 1 / 10
   \<and> (\<forall>i<5. (\<forall>j<i. \<exists>e. attempt fn s j = Some e \<and> IsConflict e) \<longrightarrow>
        (attempt fn s i = None \<longrightarrow>
           RetryOnConflict DefaultRetry fn s = (None, state_after fn s (Suc i)))
      \<and> (\<forall>err. attempt fn s i = Some err \<and> \<not> IsConflict err \<and> err \<noteq> ErrWaitTimeout \<longrightarrow>
           RetryOnConflict DefaultRetry fn s = (Some err, state_after fn s (Suc i))))
   \<and> ((\<forall>j<5. \<exists>e. attempt fn s j = Some e \<and> IsConflict e) \<longrightarrow>
        RetryOnConflict DefaultRetry fn s = (attempt fn s 4, state_after fn s 5))"
proof -
  have steps: "nat (Steps DefaultRetry) = 5" by (simp add: DefaultRetry_def)
  have a: "RetryOnConflict DefaultRetry fn s = (None, state_after fn s (Suc i))"
    if "i < 5" "\<forall>j<i. \<exists>e. attempt fn s j = Some e \<and> IsConflict e" "attempt fn s i = None" for i
    using RetryOnConflict_success [of i fn s DefaultRetry] that by (simp add: steps)
  have b: "RetryOnConflict DefaultRetry fn s = (Some err, state_after fn s (Suc i))"
    if "i < 5" "\<forall>j<i. \<exists>e. attempt fn s j = Some e \<and> IsConflict e" "attempt fn s i = Some err"
      "\<not> IsConflict err" "err \<noteq> ErrWaitTimeout" for i err
    using RetryOnConflict_error [of i fn s DefaultRetry err] that by (simp add: steps)
  have c: "RetryOnConflict DefaultRetry fn s = (attempt fn s 4, state_after fn s 5)"
    if "\<forall>j<5. \<exists>e. attempt fn s j = Some e \<and> IsConflict e"
    using RetryOnConflict_exhausted [of DefaultRetry fn s] that by (simp add: steps DefaultRetry_def)
  show ?thesis
    using a b c by (simp add: DefaultRetry_def)
qed

text \<open>
  \<open>ErrWaitTimeout\<close> is the value by which \<open>ExponentialBackoff\<close> reports that the steps
  are used up, and \<open>RetryOnConflict\<close> replaces it by the last conflict. A callback that
  itself returned this value would be taken for exhaustion; the node client returns
  API errors, never this value of the wait package.
\<close>

lemma RetryOnConflict_sentinel:
  assumes "fst (fn s) = Some ErrWaitTimeout" and "0 < Steps backoff"
  shows "RetryOnConflict backoff fn s = (None, snd (fn s))"
proof -
  obtain m where m: "nat (Steps backoff) = Suc m"
    using assms(2) by (cases "nat (Steps backoff)") auto
  show ?thesis
    using assms(1)
    by (cases "fn s")
      (simp add: RetryOnConflict_def ExponentialBackoff_def m retry_condition_def IsConflict_def)
qed

text \<open>
  Three runs on a callback that counts its calls: three conflicts and then a success;
  two conflicts and then another error; conflicts only, each with its own message.
\<close>

theorem DefaultRetry_attempts_witness:
  "RetryOnConflict DefaultRetry
     (\<lambda>n::nat. (if n < 3 then Some (Conflict ''conflict'') else None, Suc n)) 0 = (None, 4)
   \<and> RetryOnConflict DefaultRetry
     (\<lambda>n::nat. (if n < 2 then Some (Conflict ''conflict'') else Some (StatusError ''timeout''),
                Suc n)) 0 = (Some (StatusError ''timeout''), 3)
   \<and> RetryOnConflict DefaultRetry
     (\<lambda>n::nat. (Some (Conflict (replicate n CHR ''x'')), Suc n)) 0
       = (Some (Conflict ''xxxx''), 5)"
proof -
  have succeeded: "RetryOnConflict DefaultRetry fn s = (None, state_after fn s (Suc i))"
    if "i < 5" "\<forall>j<i. \<exists>e. attempt fn s j = Some e \<and> IsConflict e" "attempt fn s i = None"
    for fn :: "nat \<Rightarrow> error option \<times> nat" and s i
    using DefaultRetry_attempts [of fn s] that by blast
  have failed: "RetryOnConflict DefaultRetry fn s = (Some err, state_after fn s (Suc i))"
    if "i < 5" "\<forall>j<i. \<exists>e. attempt fn s j = Some e \<and> IsConflict e"
      "attempt fn s i = Some err" "\<not> IsConflict err" "err \<noteq> ErrWaitTimeout"
    for fn :: "nat \<Rightarrow> error option \<times> nat" and s i err
    using DefaultRetry_attempts [of fn s] that by blast
  have exhausted: "RetryOnConflict DefaultRetry fn s = (attempt fn s 4, state_after fn s 5)"
    if "\<forall>j<5. \<exists>e. attempt fn s j = Some e \<and> IsConflict e"
    for fn :: "nat \<Rightarrow> error option \<times> nat" and s
    using DefaultRetry_attempts [of fn s] that by blast
  have counter: "state_after (\<lambda>n. (r n, Suc n)) a j = a + j"
    for r :: "nat \<Rightarrow> error option" and a j
    by (induction j arbitrary: a) simp_all
  have "RetryOnConflict DefaultRetry
     (\<lambda>n::nat. (if n < 3 then Some (Conflict ''conflict'') else None, Suc n)) 0 = (None, 4)"
    using succeeded [of 3 "\<lambda>n::nat. (if n < 3 then Some (Conflict ''conflict'') else None, Suc n)" 0]
    by (simp add: attempt_def counter IsConflict_def)
  moreover have "RetryOnConflict DefaultRetry
     (\<lambda>n::nat. (if n < 2 then Some (Conflict ''conflict'') else Some (StatusError ''timeout''),
                Suc n)) 0 = (Some (StatusError ''timeout''), 3)"
    using failed [of 2 "\<lambda>n::nat. (if n < 2 then Some (Conflict ''conflict'')
                        else Some (StatusError ''timeout''), Suc n)" 0 "StatusError ''timeout''"]
    by (simp add: attempt_def counter IsConflict_def)
  moreover have "RetryOnConflict DefaultRetry
     (\<lambda>n::nat. (Some (Conflict (replicate n CHR ''x'')), Suc n)) 0
       = (Some (Conflict ''xxxx''), 5)"
    using exhausted [of "\<lambda>n::nat. (Some (Conflict (replicate n CHR ''x'')), Suc n)" 0]
    by (simp add: attempt_def counter IsConflict_def numeral_eq_Suc)
  ultimately show ?thesis by simp
qed

section \<open>Updates through the retry loop\<close>

lemma next_response_nodes: "next_response c = (r, c') \<Longrightarrow> nodes c' = nodes c"
  by (auto simp: next_response_def split: list.splits response.splits)

lemma next_response_error:
  "next_response c = (Some e, c') \<Longrightarrow> e \<noteq> ErrWaitTimeout"
  by (auto simp: next_response_def split: list.splits response.splits)

lemma next_response_empty: "responses c = [] \<Longrightarrow> next_response c = (None, c)"
  by (simp add: next_response_def)

lemma nc_List_result:
  "nc_List c = (r, c') \<Longrightarrow> nodes c' = nodes c \<and> (\<forall>items. r = Inr items \<longrightarrow> items = nodes c)"
  by (auto simp: nc_List_def split: prod.splits option.splits dest: next_response_nodes)

lemma update_attempt_cases:
  assumes "update_attempt node f c = (r, c')"
  shows "(r = None \<and> update_node node f (nodes c) = Some (nodes c'))
       \<or> (\<exists>e. r = Some e \<and> e \<noteq> ErrWaitTimeout \<and> nodes c' = nodes c)"
proof -
  obtain r1 c1 where get: "next_response c = (r1, c1)" by (cases "next_response c")
  then have n1: "nodes c1 = nodes c" by (rule next_response_nodes)
  obtain r2 c2 where upd: "next_response c1 = (r2, c2)" by (cases "next_response c1")
  then have n2: "nodes c2 = nodes c" using n1 by (simp add: next_response_nodes)
  show ?thesis
  proof (cases r1)
    case (Some e)
    with assms get n1 next_response_error [of c e c1] show ?thesis
      by (auto simp: update_attempt_def nc_Get_def)
  next
    case None
    show ?thesis
    proof (cases "find (\<lambda>n. Name n = node) (nodes c)")
      case no: None
      with assms get n1 None show ?thesis
        by (auto simp: update_attempt_def nc_Get_def)
    next
      case (Some n)
      note found = this
      show ?thesis
      proof (cases "f n")
        case no: None
        with assms get n1 None found show ?thesis
          by (auto simp: update_attempt_def nc_Get_def)
      next
        case (Some n')
        with assms get n1 \<open>r1 = None\<close> found upd n2 next_response_error [of c1 _ c2]
        show ?thesis
          by (auto simp: update_attempt_def nc_Get_def nc_Update_def update_node_def
              split: option.splits if_splits)
      qed
    qed
  qed
qed

lemma backoff_update:
  "backoff_loop steps (retry_condition (update_attempt node f)) (l, c) = (r, (l', c')) \<Longrightarrow>
   (r = None \<and> update_node node f (nodes c) = Some (nodes c'))
   \<or> (\<exists>e. r = Some e \<and> nodes c' = nodes c
          \<and> (e = ErrWaitTimeout \<longrightarrow> l' \<noteq> None \<or> (steps = 0 \<and> l' = l)))"
proof (induction steps arbitrary: l c)
  case 0
  then show ?case by auto
next
  case (Suc steps)
  obtain ra ca where a: "update_attempt node f c = (ra, ca)"
    by (cases "update_attempt node f c")
  from update_attempt_cases [OF a] show ?case
  proof
    assume "ra = None \<and> update_node node f (nodes c) = Some (nodes ca)"
    with Suc.prems a show ?thesis by (simp add: retry_condition_def)
  next
    assume "\<exists>e. ra = Some e \<and> e \<noteq> ErrWaitTimeout \<and> nodes ca = nodes c"
    then obtain e where e: "ra = Some e" "e \<noteq> ErrWaitTimeout" "nodes ca = nodes c" by blast
    show ?thesis
    proof (cases "IsConflict e")
      case False
      with Suc.prems a e show ?thesis by (auto simp: retry_condition_def)
    next
      case True
      with Suc.prems a e
      have "backoff_loop steps (retry_condition (update_attempt node f)) (Some e, ca) = (r, (l', c'))"
        by (simp add: retry_condition_def)
      from Suc.IH [OF this] e(3) show ?thesis by auto
    qed
  qed
qed

lemma UpdateNodeRetry_result:
  assumes "UpdateNodeRetry node f c = (r, c')"
  shows "(r = None \<and> update_node node f (nodes c) = Some (nodes c'))
       \<or> (r \<noteq> None \<and> nodes c' = nodes c)"
proof -
  obtain r0 l0 c0 where loop:
    "backoff_loop 5 (retry_condition (update_attempt node f)) (None, c) = (r0, (l0, c0))"
    by (metis surj_pair)
  with assms have res: "r = (if r0 = Some ErrWaitTimeout then l0 else r0)" "c' = c0"
    by (simp_all add: UpdateNodeRetry_def RetryOnConflict_def ExponentialBackoff_def
        DefaultRetry_def)
  from backoff_update [OF loop] res show ?thesis by auto
qed

lemma UpdateNodeRetry_served:
  assumes "responses c = []" and "update_node node f (nodes c) = Some ns"
  shows "UpdateNodeRetry node f c = (None, c\<lparr>nodes := ns\<rparr>)"
proof -
  have "update_attempt node f c = (None, c\<lparr>nodes := ns\<rparr>)"
    using assms
    by (auto simp: update_attempt_def nc_Get_def nc_Update_def update_node_def
        next_response_empty split: option.splits if_splits)
  then show ?thesis
    by (simp add: UpdateNodeRetry_def RetryOnConflict_def ExponentialBackoff_def
        DefaultRetry_def numeral_eq_Suc retry_condition_def)
qed

lemma put_node_map:
  "distinct (map Name ns) \<Longrightarrow>
   put_node n' ns = map (\<lambda>m. if Name m = Name n' then n' else m) ns"
proof (induction ns)
  case Nil
  then show ?case by simp
next
  case (Cons n ns)
  show ?case
  proof (cases "Name n = Name n'")
    case True
    with Cons.prems have "\<forall>m\<in>set ns. Name m \<noteq> Name n'" by (auto simp: image_iff)
    then have "map (\<lambda>m. if Name m = Name n' then n' else m) ns = ns"
      by (induction ns) auto
    with True show ?thesis by simp
  next
    case False
    with Cons show ?thesis by simp
  qed
qed

lemma find_by_name:
  "distinct (map Name ns) \<Longrightarrow>
   (find (\<lambda>n. Name n = x) ns = Some n) = (n \<in> set ns \<and> Name n = x)"
  by (induction ns) (auto simp: image_iff)

lemma update_node_map:
  assumes "update_node name f ns = Some ns'"
    and keeps: "\<And>n n'. f n = Some n' \<Longrightarrow> Name n' = Name n"
    and dist: "distinct (map Name ns)"
  shows "map Some ns' = map (\<lambda>m. if Name m = name then f m else Some m) ns"
    and "name \<in> Name ` set ns"
proof -
  from assms(1) obtain n n' where n: "find (\<lambda>n. Name n = name) ns = Some n"
    and n': "f n = Some n'" and ns': "ns' = put_node n' ns"
    by (auto simp: update_node_def split: option.splits if_splits)
  from n dist have mem: "n \<in> set ns" "Name n = name" by (simp_all add: find_by_name)
  then show "name \<in> Name ` set ns" by auto
  have same: "m = n" if "m \<in> set ns" "Name m = name" for m
    using that mem dist by (auto simp: distinct_map inj_on_def)
  from keeps [OF n'] mem have "Name n' = name" by simp
  then have "ns' = map (\<lambda>m. if Name m = name then n' else m) ns"
    using ns' dist by (simp add: put_node_map)
  then show "map Some ns' = map (\<lambda>m. if Name m = name then f m else Some m) ns"
    using same n' by auto
qed

lemma put_node_names: "map Name (put_node n' ns) = map Name ns"
  by (induction ns) auto

lemma update_node_names:
  assumes "update_node name f ns = Some ns'"
  shows "map Name ns' = map Name ns"
  using assms by (auto simp: update_node_def put_node_names split: option.splits if_splits)

lemma range_nodes_updates:
  assumes "range_nodes (\<lambda>n c. if P n then UpdateNodeRetry (Name n) f c else (None, c)) xs c
             = (None, c')"
    and keeps: "\<And>n n'. f n = Some n' \<Longrightarrow> Name n' = Name n"
    and "distinct (map Name (nodes c))" and "distinct (map Name xs)"
  shows "map Some (nodes c')
       = map (\<lambda>m. if Name m \<in> Name ` {x \<in> set xs. P x} then f m else Some m) (nodes c)"
  using assms(1,3,4)
proof (induction xs arbitrary: c)
  case Nil
  then show ?case by simp
next
  case (Cons x xs)
  let ?body = "\<lambda>n c. if P n then UpdateNodeRetry (Name n) f c else (None, c)"
  obtain c1 where first: "?body x c = (None, c1)"
    and rest: "range_nodes ?body xs c1 = (None, c')"
    using Cons.prems(1) by (auto split: prod.splits option.splits)
  have step: "map Some (nodes c1) = map (\<lambda>m. if P x \<and> Name m = Name x then f m else Some m) (nodes c)"
    and names: "map Name (nodes c1) = map Name (nodes c)"
  proof -
    show "map Some (nodes c1)
        = map (\<lambda>m. if P x \<and> Name m = Name x then f m else Some m) (nodes c)"
    proof (cases "P x")
      case False
      with first show ?thesis by simp
    next
      case True
      with first have "UpdateNodeRetry (Name x) f c = (None, c1)" by simp
      from UpdateNodeRetry_result [OF this]
      have "update_node (Name x) f (nodes c) = Some (nodes c1)" by simp
      from update_node_map(1) [OF this keeps Cons.prems(2)] True show ?thesis by simp
    qed
    show "map Name (nodes c1) = map Name (nodes c)"
    proof (cases "P x")
      case False
      with first show ?thesis by simp
    next
      case True
      with first have "UpdateNodeRetry (Name x) f c = (None, c1)" by simp
      from UpdateNodeRetry_result [OF this]
      have "update_node (Name x) f (nodes c) = Some (nodes c1)" by simp
      from update_node_names [OF this] show ?thesis .
    qed
  qed
  from Cons.prems names have d1: "distinct (map Name (nodes c1))" by simp
  from Cons.prems have dx: "distinct (map Name xs)" and nx: "Name x \<notin> Name ` set xs" by auto
  note IH = Cons.IH [OF rest d1 dx]
  have len: "length (nodes c1) = length (nodes c)"
    using arg_cong [OF names, of length] by simp
  have len': "length (nodes c') = length (nodes c1)"
    using arg_cong [OF IH, of length] by simp
  show ?case
  proof (rule nth_equalityI)
    show "length (map Some (nodes c'))
        = length (map (\<lambda>m. if Name m \<in> Name ` {y \<in> set (x # xs). P y} then f m else Some m)
            (nodes c))"
      using len len' by simp
  next
    fix i assume "i < length (map Some (nodes c'))"
    then have i: "i < length (nodes c)" "i < length (nodes c1)" "i < length (nodes c')"
      using len len' by simp_all
    let ?m = "nodes c ! i" and ?m1 = "nodes c1 ! i"
    have m1: "Some ?m1 = (if P x \<and> Name ?m = Name x then f ?m else Some ?m)"
      using arg_cong [OF step, of "\<lambda>l. l ! i"] i by simp
    have nm: "Name ?m1 = Name ?m"
      using arg_cong [OF names, of "\<lambda>l. l ! i"] i by simp
    have m': "Some (nodes c' ! i) = (if Name ?m1 \<in> Name ` {y \<in> set xs. P y} then f ?m1 else Some ?m1)"
      using arg_cong [OF IH, of "\<lambda>l. l ! i"] i by simp
    have "Some (nodes c' ! i)
        = (if Name ?m \<in> Name ` {y \<in> set (x # xs). P y} then f ?m else Some ?m)"
    proof (cases "P x \<and> Name ?m = Name x")
      case True
      then have "Name ?m1 \<notin> Name ` {y \<in> set xs. P y}" using nm nx by auto
      with m' m1 True show ?thesis by auto
    next
      case False
      then have "?m1 = ?m" using m1 by (auto split: if_splits)
      moreover from False
      have "(Name ?m \<in> Name ` {y \<in> set (x # xs). P y}) = (Name ?m \<in> Name ` {y \<in> set xs. P y})"
        by auto
      ultimately show ?thesis using m' by simp
    qed
    then show "map Some (nodes c') ! i
        = map (\<lambda>m. if Name m \<in> Name ` {y \<in> set (x # xs). P y} then f m else Some m) (nodes c) ! i"
      using i by simp
  qed
qed

lemma range_nodes_served:
  assumes "responses c = []"
    and keeps: "\<And>n n'. f n = Some n' \<Longrightarrow> Name n' = Name n"
    and "distinct (map Name (nodes c))" and "distinct (map Name xs)"
    and "\<forall>x\<in>set xs. P x \<longrightarrow> (\<exists>m\<in>set (nodes c). Name m = Name x \<and> f m \<noteq> None)"
  shows "\<exists>c'. range_nodes (\<lambda>n c. if P n then UpdateNodeRetry (Name n) f c else (None, c)) xs c
           = (None, c') \<and> responses c' = []"
  using assms(1,3,4,5)
proof (induction xs arbitrary: c)
  case Nil
  then show ?case by simp
next
  case (Cons x xs)
  let ?body = "\<lambda>n c. if P n then UpdateNodeRetry (Name n) f c else (None, c)"
  from Cons.prems have dx: "distinct (map Name xs)"
    and nx: "\<forall>y\<in>set xs. Name y \<noteq> Name x" by (auto simp: image_iff)
  have "\<exists>c1. ?body x c = (None, c1) \<and> responses c1 = [] \<and> distinct (map Name (nodes c1))
          \<and> (\<forall>m\<in>set (nodes c). Name m \<noteq> Name x \<longrightarrow> m \<in> set (nodes c1))"
  proof (cases "P x")
    case False
    with Cons.prems show ?thesis by simp
  next
    case True
    with Cons.prems(4) obtain m m' where m: "m \<in> set (nodes c)" "Name m = Name x" "f m = Some m'"
      by auto
    from keeps [OF m(3)] m have nm': "Name m' = Name x" by simp
    have "find (\<lambda>n. Name n = Name x) (nodes c) = Some m"
      using m Cons.prems(2) by (simp add: find_by_name)
    moreover have "Name x \<in> Name ` set (nodes c)"
      by (rule image_eqI [of _ _ m]) (simp_all add: m)
    ultimately have upd: "update_node (Name x) f (nodes c) = Some (put_node m' (nodes c))"
      using m nm' by (simp add: update_node_def)
    from UpdateNodeRetry_served [OF Cons.prems(1) upd] True
    have "?body x c = (None, c\<lparr>nodes := put_node m' (nodes c)\<rparr>)" by simp
    moreover have "distinct (map Name (put_node m' (nodes c)))"
      using Cons.prems(2) by (simp add: put_node_names)
    moreover have "\<forall>y\<in>set (nodes c). Name y \<noteq> Name x \<longrightarrow> y \<in> set (put_node m' (nodes c))"
      using nm' by (simp add: put_node_map [OF Cons.prems(2)])
    ultimately show ?thesis using Cons.prems(1) by simp
  qed
  then obtain c1 where c1: "?body x c = (None, c1)" "responses c1 = []"
    "distinct (map Name (nodes c1))"
    "\<forall>m\<in>set (nodes c). Name m \<noteq> Name x \<longrightarrow> m \<in> set (nodes c1)" by blast
  have "\<forall>y\<in>set xs. P y \<longrightarrow> (\<exists>m\<in>set (nodes c1). Name m = Name y \<and> f m \<noteq> None)"
  proof (intro ballI impI)
    fix y assume y: "y \<in> set xs" "P y"
    with Cons.prems(4) obtain m where m: "m \<in> set (nodes c)" "Name m = Name y" "f m \<noteq> None"
      by auto
    from y nx m have "Name m \<noteq> Name x" by auto
    with c1(4) m show "\<exists>m\<in>set (nodes c1). Name m = Name y \<and> f m \<noteq> None" by blast
  qed
  from Cons.IH [OF c1(2) c1(3) dx this] c1(1) show ?case by simp
qed

section \<open>What each phase does to the nodes\<close>

lemma map_index_delete [simp]:
  "map_index (map_delete m a) b = (if b = a then None else map_index m b)"
  by (simp add: map_index_def map_delete_def split: option.splits)

lemma map_index_delete_all [simp]:
  "map_index (delete_all as m) b = (if b \<in> set as then None else map_index m b)"
  by (induction as arbitrary: m) auto

lemma map_delete_nil [simp]: "(map_delete m a = None) = (m = None)"
  by (simp add: map_delete_def split: option.splits)

lemma delete_all_nil [simp]: "(delete_all as m = None) = (m = None)"
  by (induction as arbitrary: m) auto

lemma delete_all_None [simp]: "delete_all as None = None"
  by (induction as) (simp_all add: map_delete_def)

lemma map_assign_nil [simp]: "(map_assign m a v = None) = (m = None)"
  by (simp add: map_assign_def split: option.splits)

lemma map_index_assign:
  "map_assign m a v = Some m' \<Longrightarrow> map_index m' b = (if b = a then Some v else map_index m b)"
  by (auto simp: map_index_def map_assign_def split: option.splits)

lemma map_assign_not_nil: "map_assign m a v = Some m' \<Longrightarrow> m' \<noteq> None"
  by (auto simp: map_assign_def split: option.splits)

lemma cleanupState_update_Name: "cleanupState_update k n = Some n' \<Longrightarrow> Name n' = Name n"
  by (auto simp: cleanupState_update_def split: if_splits)

lemma cleanupState_update_total: "cleanupState_update k n \<noteq> None"
  by (simp add: cleanupState_update_def)

lemma checkBeforeReboot_update_Name:
  "checkBeforeReboot_update k n = Some n' \<Longrightarrow> Name n' = Name n"
  by (auto simp: checkBeforeReboot_update_def split: option.splits)

lemma checkAfterReboot_update_Name:
  "checkAfterReboot_update k n = Some n' \<Longrightarrow> Name n' = Name n"
  by (auto simp: checkAfterReboot_update_def split: option.splits)

lemma mark_update_Name: "mark_update label annotations n = Some n' \<Longrightarrow> Name n' = Name n"
  by (auto simp: mark_update_def split: option.splits)

lemma checkBeforeReboot_update_None [simp]:
  "(checkBeforeReboot_update k n = None) = (Annotations n = None)"
  by (cases "Annotations n") (auto simp: checkBeforeReboot_update_def map_assign_def split: option.splits)

lemma checkAfterReboot_update_None [simp]:
  "(checkAfterReboot_update k n = None) = (Annotations n = None)"
  by (cases "Annotations n") (auto simp: checkAfterReboot_update_def map_assign_def split: option.splits)

lemma mark_update_None [simp]:
  "(mark_update label annotations n = None) = (Labels n = None)"
  by (cases "Labels n") (auto simp: mark_update_def map_assign_def split: option.splits)

lemma selected_names:
  assumes "distinct (map Name ns)" and "m \<in> set ns" and "set xs \<subseteq> set ns"
  shows "(Name m \<in> Name ` {x \<in> set xs. P x}) = (m \<in> set xs \<and> P m)"
proof
  assume "Name m \<in> Name ` {x \<in> set xs. P x}"
  then obtain x where x: "x \<in> set xs" "P x" "Name m = Name x" by auto
  with assms have "m = x" by (auto simp: distinct_map inj_on_def)
  with x show "m \<in> set xs \<and> P m" by simp
next
  assume "m \<in> set xs \<and> P m"
  then show "Name m \<in> Name ` {x \<in> set xs. P x}" by blast
qed

lemma range_nodes_selected:
  assumes "range_nodes (\<lambda>n c. if P n then UpdateNodeRetry (Name n) f c else (None, c)) xs c
             = (None, c')"
    and keeps: "\<And>n n'. f n = Some n' \<Longrightarrow> Name n' = Name n"
    and dist: "distinct (map Name (nodes c))" and sub: "set xs \<subseteq> set (nodes c)"
    and dx: "distinct (map Name xs)"
  shows "map Some (nodes c') = map (\<lambda>m. if m \<in> set xs \<and> P m then f m else Some m) (nodes c)"
proof -
  have "map Some (nodes c')
      = map (\<lambda>m. if Name m \<in> Name ` {x \<in> set xs. P x} then f m else Some m) (nodes c)"
    using assms(1) keeps dist dx by (rule range_nodes_updates)
  also have "\<dots> = map (\<lambda>m. if m \<in> set xs \<and> P m then f m else Some m) (nodes c)"
    by (rule map_cong) (simp_all add: selected_names [OF dist _ sub])
  finally show ?thesis .
qed

lemma range_nodes_selected_served:
  assumes "responses c = []"
    and keeps: "\<And>n n'. f n = Some n' \<Longrightarrow> Name n' = Name n"
    and dist: "distinct (map Name (nodes c))" and sub: "set xs \<subseteq> set (nodes c)"
    and dx: "distinct (map Name xs)"
    and total: "\<forall>x\<in>set xs. P x \<longrightarrow> f x \<noteq> None"
  shows "range_nodes (\<lambda>n c. if P n then UpdateNodeRetry (Name n) f c else (None, c)) xs c
       = (None, c\<lparr>nodes := map (\<lambda>m. if m \<in> set xs \<and> P m then the (f m) else m) (nodes c)\<rparr>)"
proof -
  have "\<forall>x\<in>set xs. P x \<longrightarrow> (\<exists>m\<in>set (nodes c). Name m = Name x \<and> f m \<noteq> None)"
    using sub total by blast
  from range_nodes_served [OF assms(1) keeps dist dx this]
  obtain c' where c': "range_nodes (\<lambda>n c. if P n then UpdateNodeRetry (Name n) f c else (None, c)) xs c
           = (None, c')" "responses c' = []" by blast
  from range_nodes_selected [OF c'(1) keeps dist sub dx]
  have "map the (map Some (nodes c'))
      = map the (map (\<lambda>m. if m \<in> set xs \<and> P m then f m else Some m) (nodes c))" by simp
  then have "nodes c' = map (\<lambda>m. if m \<in> set xs \<and> P m then the (f m) else m) (nodes c)"
    by (simp add: comp_def if_distrib [of the] cong: if_cong)
  with c' assms(1) show ?thesis by simp
qed

lemma nc_List_served: "responses c = [] \<Longrightarrow> nc_List c = (Inr (nodes c), c)"
  by (simp add: nc_List_def next_response_empty)

lemma nc_List_cases:
  obtains (rejected) err c1 where "nc_List c = (Inl err, c1)"
  | (served) c1 where "nc_List c = (Inr (nodes c), c1)" "nodes c1 = nodes c"
proof (cases "nc_List c")
  case (Pair r c1)
  from nc_List_result [OF Pair] Pair rejected served show ?thesis
    by (cases r) auto
qed

lemma notBeforeRebootReq_iff: "req_Matches notBeforeRebootReq (Labels n) = (\<not> hasPreLabel n)"
  by (simp add: req_Matches_def notBeforeRebootReq_def beforeRebootReq_def hasPreLabel_def
      split: option.splits)

lemma notAfterRebootReq_iff: "req_Matches notAfterRebootReq (Labels n) = (\<not> hasPostLabel n)"
  by (simp add: req_Matches_def notAfterRebootReq_def afterRebootReq_def hasPostLabel_def
      split: option.splits)

lemma distinct_names_filter: "distinct (map Name ns) \<Longrightarrow> distinct (map Name (filter Q ns))"
  by (rule distinct_map_filter)

lemma cleanupState_nodes:
  assumes "cleanupState k c = (None, c')" and "distinct (map Name (nodes c))"
  shows "map Some (nodes c') = map (cleanupState_update k) (nodes c)"
proof (cases c rule: nc_List_cases)
  case (rejected err c1)
  with assms show ?thesis by (simp add: cleanupState_def)
next
  case (served c1)
  with assms have loop: "range_nodes
      (\<lambda>n c. if (\<lambda>_. True) n then UpdateNodeRetry (Name n) (cleanupState_update k) c else (None, c))
      (nodes c1) c1 = (None, c')"
    by (simp add: cleanupState_def)
  from range_nodes_selected [OF loop cleanupState_update_Name] assms(2) served(2)
  have "map Some (nodes c') = map (\<lambda>m. if m \<in> set (nodes c) \<and> True then cleanupState_update k m
      else Some m) (nodes c)" by simp
  also have "\<dots> = map (cleanupState_update k) (nodes c)"
    by (rule map_cong) simp_all
  finally show ?thesis .
qed

lemma cleanupState_served:
  assumes "responses c = []" and "distinct (map Name (nodes c))"
  shows "cleanupState k c = (None, c\<lparr>nodes := map (\<lambda>m. the (cleanupState_update k m)) (nodes c)\<rparr>)"
proof -
  have "range_nodes
      (\<lambda>n c. if (\<lambda>_. True) n then UpdateNodeRetry (Name n) (cleanupState_update k) c else (None, c))
      (nodes c) c
    = (None, c\<lparr>nodes := map (\<lambda>m. if m \<in> set (nodes c) \<and> True then the (cleanupState_update k m) else m)
        (nodes c)\<rparr>)"
    using assms by (intro range_nodes_selected_served cleanupState_update_Name)
      (simp_all add: cleanupState_update_total)
  moreover have "map (\<lambda>m. if m \<in> set (nodes c) \<and> True then the (cleanupState_update k m) else m)
        (nodes c) = map (\<lambda>m. the (cleanupState_update k m)) (nodes c)"
    by (rule map_cong) simp_all
  ultimately show ?thesis
    using assms(1) by (simp add: cleanupState_def nc_List_served)
qed

lemma checkBeforeReboot_nodes:
  assumes "checkBeforeReboot k c = (None, c')" and "distinct (map Name (nodes c))"
  shows "map Some (nodes c')
       = map (\<lambda>m. if hasPreLabel m \<and> hasAllAnnotations m (beforeRebootAnnotations k)
                  then checkBeforeReboot_update k m else Some m) (nodes c)"
proof (cases c rule: nc_List_cases)
  case (rejected err c1)
  with assms show ?thesis by (simp add: checkBeforeReboot_def)
next
  case (served c1)
  let ?xs = "filter hasPreLabel (nodes c1)"
  have pre: "hasPreLabel = (\<lambda>n. req_Matches beforeRebootReq (Labels n))"
    by (simp add: fun_eq_iff hasPreLabel_def)
  have body: "checkBeforeReboot_node k
      = (\<lambda>n c. if hasAllAnnotations n (beforeRebootAnnotations k)
              then UpdateNodeRetry (Name n) (checkBeforeReboot_update k) c else (None, c))"
    by (simp add: fun_eq_iff checkBeforeReboot_node_def)
  from served assms have loop: "range_nodes
      (\<lambda>n c. if hasAllAnnotations n (beforeRebootAnnotations k)
              then UpdateNodeRetry (Name n) (checkBeforeReboot_update k) c else (None, c))
      ?xs c1 = (None, c')"
    by (simp add: checkBeforeReboot_def FilterNodesByRequirement_def pre body)
  from range_nodes_selected [OF loop checkBeforeReboot_update_Name] assms(2) served(2)
  have "map Some (nodes c') = map (\<lambda>m. if m \<in> set ?xs \<and> hasAllAnnotations m (beforeRebootAnnotations k)
      then checkBeforeReboot_update k m else Some m) (nodes c)"
    by (simp add: distinct_names_filter)
  also have "\<dots> = map (\<lambda>m. if hasPreLabel m \<and> hasAllAnnotations m (beforeRebootAnnotations k)
                  then checkBeforeReboot_update k m else Some m) (nodes c)"
    by (rule map_cong) (simp_all add: served(2))
  finally show ?thesis .
qed

lemma checkBeforeReboot_served:
  assumes "responses c = []" and "distinct (map Name (nodes c))"
    and "\<forall>m\<in>set (nodes c). hasPreLabel m \<and> hasAllAnnotations m (beforeRebootAnnotations k)
           \<longrightarrow> Annotations m \<noteq> None"
  shows "checkBeforeReboot k c
       = (None, c\<lparr>nodes := map (\<lambda>m. if hasPreLabel m \<and> hasAllAnnotations m (beforeRebootAnnotations k)
                  then the (checkBeforeReboot_update k m) else m) (nodes c)\<rparr>)"
proof -
  let ?xs = "filter hasPreLabel (nodes c)"
  have pre: "hasPreLabel = (\<lambda>n. req_Matches beforeRebootReq (Labels n))"
    by (simp add: fun_eq_iff hasPreLabel_def)
  have body: "checkBeforeReboot_node k
      = (\<lambda>n c. if hasAllAnnotations n (beforeRebootAnnotations k)
              then UpdateNodeRetry (Name n) (checkBeforeReboot_update k) c else (None, c))"
    by (simp add: fun_eq_iff checkBeforeReboot_node_def)
  have "range_nodes
      (\<lambda>n c. if hasAllAnnotations n (beforeRebootAnnotations k)
              then UpdateNodeRetry (Name n) (checkBeforeReboot_update k) c else (None, c))
      ?xs c
    = (None, c\<lparr>nodes := map (\<lambda>m. if m \<in> set ?xs \<and> hasAllAnnotations m (beforeRebootAnnotations k)
        then the (checkBeforeReboot_update k m) else m) (nodes c)\<rparr>)"
    using assms by (intro range_nodes_selected_served checkBeforeReboot_update_Name)
      (simp_all add: distinct_names_filter)
  moreover have "map (\<lambda>m. if m \<in> set ?xs \<and> hasAllAnnotations m (beforeRebootAnnotations k)
        then the (checkBeforeReboot_update k m) else m) (nodes c)
     = map (\<lambda>m. if hasPreLabel m \<and> hasAllAnnotations m (beforeRebootAnnotations k)
                  then the (checkBeforeReboot_update k m) else m) (nodes c)"
    by (rule map_cong) simp_all
  ultimately show ?thesis
    using assms(1) by (simp add: checkBeforeReboot_def nc_List_served FilterNodesByRequirement_def pre body)
qed

lemma checkAfterReboot_nodes:
  assumes "checkAfterReboot k c = (None, c')" and "distinct (map Name (nodes c))"
  shows "map Some (nodes c')
       = map (\<lambda>m. if hasPostLabel m \<and> hasAllAnnotations m (afterRebootAnnotations k)
                  then checkAfterReboot_update k m else Some m) (nodes c)"
proof (cases c rule: nc_List_cases)
  case (rejected err c1)
  with assms show ?thesis by (simp add: checkAfterReboot_def)
next
  case (served c1)
  let ?xs = "filter hasPostLabel (nodes c1)"
  have post: "hasPostLabel = (\<lambda>n. req_Matches afterRebootReq (Labels n))"
    by (simp add: fun_eq_iff hasPostLabel_def)
  have body: "checkAfterReboot_node k
      = (\<lambda>n c. if hasAllAnnotations n (afterRebootAnnotations k)
              then UpdateNodeRetry (Name n) (checkAfterReboot_update k) c else (None, c))"
    by (simp add: fun_eq_iff checkAfterReboot_node_def)
  from served assms have loop: "range_nodes
      (\<lambda>n c. if hasAllAnnotations n (afterRebootAnnotations k)
              then UpdateNodeRetry (Name n) (checkAfterReboot_update k) c else (None, c))
      ?xs c1 = (None, c')"
    by (simp add: checkAfterReboot_def FilterNodesByRequirement_def post body)
  from range_nodes_selected [OF loop checkAfterReboot_update_Name] assms(2) served(2)
  have "map Some (nodes c') = map (\<lambda>m. if m \<in> set ?xs \<and> hasAllAnnotations m (afterRebootAnnotations k)
      then checkAfterReboot_update k m else Some m) (nodes c)"
    by (simp add: distinct_names_filter)
  also have "\<dots> = map (\<lambda>m. if hasPostLabel m \<and> hasAllAnnotations m (afterRebootAnnotations k)
                  then checkAfterReboot_update k m else Some m) (nodes c)"
    by (rule map_cong) (simp_all add: served(2))
  finally show ?thesis .
qed

lemma checkAfterReboot_served:
  assumes "responses c = []" and "distinct (map Name (nodes c))"
    and "\<forall>m\<in>set (nodes c). hasPostLabel m \<and> hasAllAnnotations m (afterRebootAnnotations k)
           \<longrightarrow> Annotations m \<noteq> None"
  shows "checkAfterReboot k c
       = (None, c\<lparr>nodes := map (\<lambda>m. if hasPostLabel m \<and> hasAllAnnotations m (afterRebootAnnotations k)
                  then the (checkAfterReboot_update k m) else m) (nodes c)\<rparr>)"
proof -
  let ?xs = "filter hasPostLabel (nodes c)"
  have post: "hasPostLabel = (\<lambda>n. req_Matches afterRebootReq (Labels n))"
    by (simp add: fun_eq_iff hasPostLabel_def)
  have body: "checkAfterReboot_node k
      = (\<lambda>n c. if hasAllAnnotations n (afterRebootAnnotations k)
              then UpdateNodeRetry (Name n) (checkAfterReboot_update k) c else (None, c))"
    by (simp add: fun_eq_iff checkAfterReboot_node_def)
  have "range_nodes
      (\<lambda>n c. if hasAllAnnotations n (afterRebootAnnotations k)
              then UpdateNodeRetry (Name n) (checkAfterReboot_update k) c else (None, c))
      ?xs c
    = (None, c\<lparr>nodes := map (\<lambda>m. if m \<in> set ?xs \<and> hasAllAnnotations m (afterRebootAnnotations k)
        then the (checkAfterReboot_update k m) else m) (nodes c)\<rparr>)"
    using assms by (intro range_nodes_selected_served checkAfterReboot_update_Name)
      (simp_all add: distinct_names_filter)
  moreover have "map (\<lambda>m. if m \<in> set ?xs \<and> hasAllAnnotations m (afterRebootAnnotations k)
        then the (checkAfterReboot_update k m) else m) (nodes c)
     = map (\<lambda>m. if hasPostLabel m \<and> hasAllAnnotations m (afterRebootAnnotations k)
                  then the (checkAfterReboot_update k m) else m) (nodes c)"
    by (rule map_cong) simp_all
  ultimately show ?thesis
    using assms(1) by (simp add: checkAfterReboot_def nc_List_served FilterNodesByRequirement_def post body)
qed

lemma justRebootedNodes_eq:
  "FilterNodesByRequirement (FilterNodesByAnnotation items justRebootedSelector) notAfterRebootReq
   = filter (\<lambda>n. justRebooted n \<and> \<not> hasPostLabel n) items"
  by (simp add: FilterNodesByRequirement_def FilterNodesByAnnotation_def notAfterRebootReq_iff
      justRebooted_def conj_commute)

lemma nodesRequiringReboot_eq:
  "nodesRequiringReboot items = filter (\<lambda>n. wantsReboot_minus_label n \<and> \<not> hasPreLabel n) items"
  by (simp add: nodesRequiringReboot_def FilterNodesByRequirement_def FilterNodesByAnnotation_def
      notBeforeRebootReq_iff wantsReboot_minus_label_def conj_commute)

lemma mark_loop:
  "range_nodes (\<lambda>n. mark (Name n) label annotations) xs c
   = range_nodes (\<lambda>n c. if (\<lambda>_. True) n then UpdateNodeRetry (Name n) (mark_update label annotations) c
        else (None, c)) xs c"
proof -
  have "(\<lambda>n::Node. mark (Name n) label annotations)
      = (\<lambda>n. UpdateNodeRetry (Name n) (mark_update label annotations))"
    by (simp add: fun_eq_iff mark_def)
  then show ?thesis by simp
qed

lemma markAfterReboot_nodes:
  assumes "markAfterReboot k c = (None, c')" and "distinct (map Name (nodes c))"
  shows "map Some (nodes c')
       = map (\<lambda>m. if justRebooted m \<and> \<not> hasPostLabel m
                  then mark_update LabelAfterReboot (afterRebootAnnotations k) m else Some m)
           (nodes c)"
proof (cases c rule: nc_List_cases)
  case (rejected err c1)
  with assms show ?thesis by (simp add: markAfterReboot_def)
next
  case (served c1)
  let ?xs = "filter (\<lambda>n. justRebooted n \<and> \<not> hasPostLabel n) (nodes c1)"
  from served assms have loop: "range_nodes
      (\<lambda>n c. if (\<lambda>_. True) n
              then UpdateNodeRetry (Name n) (mark_update LabelAfterReboot (afterRebootAnnotations k)) c
              else (None, c))
      ?xs c1 = (None, c')"
    by (simp add: markAfterReboot_def justRebootedNodes_eq mark_loop)
  from range_nodes_selected [OF loop mark_update_Name] assms(2) served(2)
  have "map Some (nodes c') = map (\<lambda>m. if m \<in> set ?xs \<and> True
      then mark_update LabelAfterReboot (afterRebootAnnotations k) m else Some m) (nodes c)"
    by (simp add: distinct_names_filter)
  also have "\<dots> = map (\<lambda>m. if justRebooted m \<and> \<not> hasPostLabel m
                  then mark_update LabelAfterReboot (afterRebootAnnotations k) m else Some m)
           (nodes c)"
    by (rule map_cong) (simp_all add: served(2))
  finally show ?thesis .
qed

lemma markAfterReboot_served:
  assumes "responses c = []" and "distinct (map Name (nodes c))"
    and "\<forall>m\<in>set (nodes c). justRebooted m \<and> \<not> hasPostLabel m \<longrightarrow> Labels m \<noteq> None"
  shows "markAfterReboot k c
       = (None, c\<lparr>nodes := map (\<lambda>m. if justRebooted m \<and> \<not> hasPostLabel m
                  then the (mark_update LabelAfterReboot (afterRebootAnnotations k) m) else m)
           (nodes c)\<rparr>)"
proof -
  let ?xs = "filter (\<lambda>n. justRebooted n \<and> \<not> hasPostLabel n) (nodes c)"
  have "range_nodes
      (\<lambda>n c. if (\<lambda>_. True) n
              then UpdateNodeRetry (Name n) (mark_update LabelAfterReboot (afterRebootAnnotations k)) c
              else (None, c))
      ?xs c
    = (None, c\<lparr>nodes := map (\<lambda>m. if m \<in> set ?xs \<and> True
        then the (mark_update LabelAfterReboot (afterRebootAnnotations k) m) else m) (nodes c)\<rparr>)"
    using assms by (intro range_nodes_selected_served mark_update_Name)
      (simp_all add: distinct_names_filter)
  moreover have "map (\<lambda>m. if m \<in> set ?xs \<and> True
        then the (mark_update LabelAfterReboot (afterRebootAnnotations k) m) else m) (nodes c)
     = map (\<lambda>m. if justRebooted m \<and> \<not> hasPostLabel m
                  then the (mark_update LabelAfterReboot (afterRebootAnnotations k) m) else m)
           (nodes c)"
    by (rule map_cong) simp_all
  ultimately show ?thesis
    using assms(1) by (simp add: markAfterReboot_def nc_List_served justRebootedNodes_eq mark_loop)
qed

lemma rebootableNodes_subset:
  assumes "rebootableNodes items = Some chosen"
  shows "set chosen \<subseteq> set items" and "distinct (map Name items) \<Longrightarrow> distinct (map Name chosen)"
    and "\<forall>n\<in>set chosen. wantsReboot_minus_label n \<and> \<not> hasPreLabel n"
    and "int (length chosen) \<le> remainingRebootingCapacity items"
proof -
  from assms have ch: "chosen = take (nat (remainingRebootingCapacity items))
      (filter (\<lambda>n. wantsReboot_minus_label n \<and> \<not> hasPreLabel n) items)"
    and cap: "0 \<le> remainingRebootingCapacity items"
    by (auto simp: rebootableNodes_def nodesRequiringReboot_eq Let_def split: if_splits)
  show "set chosen \<subseteq> set items"
    unfolding ch using set_take_subset [of _ "filter _ items"] by fastforce
  show "\<forall>n\<in>set chosen. wantsReboot_minus_label n \<and> \<not> hasPreLabel n"
    unfolding ch using set_take_subset [of _ "filter _ items"] by fastforce
  show "int (length chosen) \<le> remainingRebootingCapacity items"
    unfolding ch using cap by simp
  show "distinct (map Name chosen)" if "distinct (map Name items)"
    unfolding ch take_map [symmetric]
    using that by (intro distinct_take) (simp add: distinct_names_filter)
qed

lemma markBeforeReboot_nodes:
  assumes "markBeforeReboot k now1 now2 c = (None, c')" and "distinct (map Name (nodes c))"
  shows "(\<not> insideRebootWindow k now1 now2 \<and> nodes c' = nodes c)
       \<or> (insideRebootWindow k now1 now2
          \<and> (\<exists>chosen. rebootableNodes (nodes c) = Some chosen
                \<and> map Some (nodes c')
                  = map (\<lambda>m. if m \<in> set chosen
                             then mark_update LabelBeforeReboot (beforeRebootAnnotations k) m
                             else Some m) (nodes c)))"
proof (cases c rule: nc_List_cases)
  case (rejected err c1)
  with assms show ?thesis by (simp add: markBeforeReboot_def)
next
  case (served c1)
  show ?thesis
  proof (cases "insideRebootWindow k now1 now2")
    case False
    with served assms show ?thesis by (simp add: markBeforeReboot_def)
  next
    case True
    with served assms obtain chosen where ch: "rebootableNodes (nodes c) = Some chosen"
      and loop: "range_nodes
        (\<lambda>n c. if (\<lambda>_. True) n
              then UpdateNodeRetry (Name n) (mark_update LabelBeforeReboot (beforeRebootAnnotations k)) c
              else (None, c))
        chosen c1 = (None, c')"
      by (auto simp: markBeforeReboot_def mark_loop split: option.splits)
    from range_nodes_selected [OF loop mark_update_Name] assms(2) served(2)
      rebootableNodes_subset(1,2) [OF ch]
    have "map Some (nodes c') = map (\<lambda>m. if m \<in> set chosen \<and> True
        then mark_update LabelBeforeReboot (beforeRebootAnnotations k) m else Some m) (nodes c)"
      by simp
    with True ch show ?thesis by simp
  qed
qed

lemma markBeforeReboot_served:
  assumes "responses c = []" and "distinct (map Name (nodes c))"
    and "insideRebootWindow k now1 now2"
    and "rebootableNodes (nodes c) = Some chosen"
    and "\<forall>m\<in>set chosen. Labels m \<noteq> None"
  shows "markBeforeReboot k now1 now2 c
       = (None, c\<lparr>nodes := map (\<lambda>m. if m \<in> set chosen
                  then the (mark_update LabelBeforeReboot (beforeRebootAnnotations k) m) else m)
           (nodes c)\<rparr>)"
proof -
  have "range_nodes
      (\<lambda>n c. if (\<lambda>_. True) n
              then UpdateNodeRetry (Name n) (mark_update LabelBeforeReboot (beforeRebootAnnotations k)) c
              else (None, c))
      chosen c
    = (None, c\<lparr>nodes := map (\<lambda>m. if m \<in> set chosen \<and> True
        then the (mark_update LabelBeforeReboot (beforeRebootAnnotations k) m) else m) (nodes c)\<rparr>)"
    using assms rebootableNodes_subset(1,2) [OF assms(4)]
    by (intro range_nodes_selected_served mark_update_Name) simp_all
  then show ?thesis
    using assms(1,3,4) by (simp add: markBeforeReboot_def nc_List_served mark_loop)
qed

lemma markBeforeReboot_outside:
  assumes "\<not> insideRebootWindow k now1 now2"
  shows "nodes (snd (markBeforeReboot k now1 now2 c)) = nodes c"
proof (cases c rule: nc_List_cases)
  case (rejected err c1)
  from nc_List_result [OF this(1)] rejected show ?thesis
    by (simp add: markBeforeReboot_def)
next
  case (served c1)
  with assms show ?thesis by (simp add: markBeforeReboot_def)
qed

section \<open>The predicates in terms of single annotations and labels\<close>

lemma hasAllAnnotations_iff:
  "hasAllAnnotations n as = (\<forall>a\<in>set as. map_index (Annotations n) a = Some constTrue)"
  by (induction as) (auto split: option.splits)

lemma hasPreLabel_iff: "hasPreLabel n = (map_index (Labels n) LabelBeforeReboot = Some constTrue)"
  by (auto simp: hasPreLabel_def req_Matches_def beforeRebootReq_def split: option.splits)

lemma hasPostLabel_iff: "hasPostLabel n = (map_index (Labels n) LabelAfterReboot = Some constTrue)"
  by (auto simp: hasPostLabel_def req_Matches_def afterRebootReq_def split: option.splits)

lemma fields_Get_eq_iff: "v \<noteq> [] \<Longrightarrow> (fields_Get m a = v) = (map_index m a = Some v)"
  by (auto simp: fields_Get_def split: option.splits)

lemma const_not_empty [simp]: "constTrue \<noteq> []" "constFalse \<noteq> []" "constTrue \<noteq> constFalse"
  by (simp_all add: constTrue_def constFalse_def)

lemma keys_distinct [simp]:
  "AnnotationOkToReboot \<noteq> AnnotationRebootNeeded"
  "AnnotationOkToReboot \<noteq> AnnotationRebootInProgress"
  "AnnotationOkToReboot \<noteq> AnnotationRebootPaused"
  "AnnotationRebootNeeded \<noteq> AnnotationOkToReboot"
  "AnnotationRebootNeeded \<noteq> AnnotationRebootInProgress"
  "AnnotationRebootNeeded \<noteq> AnnotationRebootPaused"
  "AnnotationRebootInProgress \<noteq> AnnotationOkToReboot"
  "AnnotationRebootInProgress \<noteq> AnnotationRebootNeeded"
  "AnnotationRebootInProgress \<noteq> AnnotationRebootPaused"
  "AnnotationRebootPaused \<noteq> AnnotationOkToReboot"
  "AnnotationRebootPaused \<noteq> AnnotationRebootNeeded"
  "AnnotationRebootPaused \<noteq> AnnotationRebootInProgress"
  "LabelBeforeReboot \<noteq> LabelAfterReboot"
  "LabelAfterReboot \<noteq> LabelBeforeReboot"
  "constFalse \<noteq> constTrue"
  by (simp_all add: constTrue_def constFalse_def AnnotationOkToReboot_def
      AnnotationRebootNeeded_def AnnotationRebootInProgress_def AnnotationRebootPaused_def
      LabelBeforeReboot_def LabelAfterReboot_def)

lemma wantsReboot_minus_label_iff:
  "wantsReboot_minus_label n =
     (map_index (Annotations n) AnnotationRebootNeeded = Some constTrue
      \<and> map_index (Annotations n) AnnotationRebootPaused \<noteq> Some constTrue
      \<and> map_index (Annotations n) AnnotationOkToReboot \<noteq> Some constTrue
      \<and> map_index (Annotations n) AnnotationRebootInProgress \<noteq> Some constTrue)"
  by (simp add: wantsReboot_minus_label_def Matches_def wantsRebootSelector_def fields_Get_eq_iff)

lemma stillRebooting_iff:
  "stillRebooting n =
     (map_index (Annotations n) AnnotationOkToReboot = Some constTrue
      \<and> map_index (Annotations n) AnnotationRebootNeeded = Some constTrue)"
  by (simp add: stillRebooting_def Matches_def stillRebootingSelector_def fields_Get_eq_iff)

lemma justRebooted_iff:
  "justRebooted n =
     (map_index (Annotations n) AnnotationOkToReboot = Some constTrue
      \<and> map_index (Annotations n) AnnotationRebootNeeded = Some constFalse
      \<and> map_index (Annotations n) AnnotationRebootInProgress = Some constFalse)"
  by (simp add: justRebooted_def Matches_def justRebootedSelector_def fields_Get_eq_iff)

section \<open>Finishing the pre-check and the post-check\<close>

lemma map_Some_list_all2: "map Some ys = map g xs \<Longrightarrow> list_all2 (\<lambda>x y. g x = Some y) xs ys"
  by (induction xs arbitrary: ys) auto

lemma checkBeforeReboot_update_result:
  assumes "checkBeforeReboot_update k n = Some n'"
  shows "Name n' = Name n"
    and "map_index (Labels n') l = (if l = LabelBeforeReboot then None else map_index (Labels n) l)"
    and "map_index (Annotations n') a =
          (if a = AnnotationOkToReboot then Some constTrue
           else if a \<in> set (beforeRebootAnnotations k) then None
           else map_index (Annotations n) a)"
  using assms
  by (auto simp: checkBeforeReboot_update_def map_index_assign split: option.splits)

lemma checkAfterReboot_update_result:
  assumes "checkAfterReboot_update k n = Some n'"
  shows "Name n' = Name n"
    and "map_index (Labels n') l = (if l = LabelAfterReboot then None else map_index (Labels n) l)"
    and "map_index (Annotations n') a =
          (if a = AnnotationOkToReboot then Some constFalse
           else if a \<in> set (afterRebootAnnotations k) then None
           else map_index (Annotations n) a)"
  using assms
  by (auto simp: checkAfterReboot_update_def map_index_assign split: option.splits)

lemma mark_update_result:
  assumes "mark_update label annotations n = Some n'"
  shows "Name n' = Name n"
    and "map_index (Labels n') l = (if l = label then Some constTrue else map_index (Labels n) l)"
    and "map_index (Annotations n') a =
          (if a \<in> set annotations then None else map_index (Annotations n) a)"
  using assms
  by (auto simp: mark_update_def map_index_assign split: option.splits)

text \<open>
  Claim C5. A successful \<open>checkBeforeReboot\<close> relates the nodes before and after it
  one by one: a node that carries \<open>before-reboot=true\<close> and has every configured
  pre-check annotation equal to "true" loses the label, loses every configured
  pre-check annotation and has \<open>reboot-ok=true\<close>, its other labels and annotations kept;
  every other node, so also a labelled one whose annotations are not all "true", is
  unchanged. When the store serves every call and no annotation map is nil, the phase
  does succeed.
\<close>

theorem checkBeforeReboot_finishes_pre_check:
  assumes "distinct (map Name (nodes c))"
  shows "(responses c = [] \<and> (\<forall>n\<in>set (nodes c). Annotations n \<noteq> None)
            \<longrightarrow> fst (checkBeforeReboot k c) = None)
       \<and> (checkBeforeReboot k c = (None, c') \<longrightarrow>
            list_all2 (\<lambda>n n'.
              if map_index (Labels n) LabelBeforeReboot = Some constTrue
                 \<and> (\<forall>a\<in>set (beforeRebootAnnotations k).
                       map_index (Annotations n) a = Some constTrue)
              then Name n' = Name n
                 \<and> map_index (Labels n') LabelBeforeReboot = None
                 \<and> (\<forall>l. l \<noteq> LabelBeforeReboot \<longrightarrow> map_index (Labels n') l = map_index (Labels n) l)
                 \<and> map_index (Annotations n') AnnotationOkToReboot = Some constTrue
                 \<and> (\<forall>a. a \<noteq> AnnotationOkToReboot \<longrightarrow>
                       map_index (Annotations n') a
                         = (if a \<in> set (beforeRebootAnnotations k) then None
                            else map_index (Annotations n) a))
              else n' = n) (nodes c) (nodes c'))"
proof (intro conjI impI)
  assume "responses c = [] \<and> (\<forall>n\<in>set (nodes c). Annotations n \<noteq> None)"
  with assms show "fst (checkBeforeReboot k c) = None"
    by (simp add: checkBeforeReboot_served)
next
  assume "checkBeforeReboot k c = (None, c')"
  from map_Some_list_all2 [OF checkBeforeReboot_nodes [OF this assms]]
  show "list_all2 (\<lambda>n n'.
          if map_index (Labels n) LabelBeforeReboot = Some constTrue
             \<and> (\<forall>a\<in>set (beforeRebootAnnotations k). map_index (Annotations n) a = Some constTrue)
          then Name n' = Name n
             \<and> map_index (Labels n') LabelBeforeReboot = None
             \<and> (\<forall>l. l \<noteq> LabelBeforeReboot \<longrightarrow> map_index (Labels n') l = map_index (Labels n) l)
             \<and> map_index (Annotations n') AnnotationOkToReboot = Some constTrue
             \<and> (\<forall>a. a \<noteq> AnnotationOkToReboot \<longrightarrow>
                   map_index (Annotations n') a
                     = (if a \<in> set (beforeRebootAnnotations k) then None
                        else map_index (Annotations n) a))
          else n' = n) (nodes c) (nodes c')"
    by (rule list_all2_mono)
      (auto simp: hasPreLabel_iff hasAllAnnotations_iff checkBeforeReboot_update_result
        split: if_splits)
qed

text \<open>The strings behind the keys, for evaluating the operator on written-out nodes.\<close>

lemmas constants_defs = constTrue_def constFalse_def AnnotationOkToReboot_def
  AnnotationRebootNeeded_def AnnotationRebootInProgress_def AnnotationRebootPaused_def
  LabelBeforeReboot_def LabelAfterReboot_def

text \<open>
  Two labelled nodes, one health gate configured: node a has the gate at "true" and is
  admitted, node b has it at "false" and is left as it is.
\<close>

theorem checkBeforeReboot_finishes_pre_check_witness:
  "(let k = \<lparr>beforeRebootAnnotations = [''healthy''], afterRebootAnnotations = [],
              rebootWindow = None\<rparr>;
        a = mk_node ''a'' [(''before-reboot'', ''true'')]
              [(''reboot-needed'', ''true''), (''healthy'', ''true'')];
        b = mk_node ''b'' [(''before-reboot'', ''true'')]
              [(''reboot-needed'', ''true''), (''healthy'', ''false'')];
        c = \<lparr>nodes = [a, b], responses = []\<rparr>;
        c' = snd (checkBeforeReboot k c)
    in fst (checkBeforeReboot k c) = None
       \<and> map_index (Labels (nodes c' ! 0)) ''before-reboot'' = None
       \<and> map_index (Annotations (nodes c' ! 0)) ''healthy'' = None
       \<and> map_index (Annotations (nodes c' ! 0)) ''reboot-ok'' = Some ''true''
       \<and> map_index (Annotations (nodes c' ! 0)) ''reboot-needed'' = Some ''true''
       \<and> nodes c' ! 1 = b)"
proof -
  define k where "k = \<lparr>beforeRebootAnnotations = [''healthy''], afterRebootAnnotations = [],
              rebootWindow = None\<rparr>"
  define a where "a = mk_node ''a'' [(''before-reboot'', ''true'')]
              [(''reboot-needed'', ''true''), (''healthy'', ''true'')]"
  define b where "b = mk_node ''b'' [(''before-reboot'', ''true'')]
              [(''reboot-needed'', ''true''), (''healthy'', ''false'')]"
  define c where "c = \<lparr>nodes = [a, b], responses = []\<rparr>"
  define c' where "c' = snd (checkBeforeReboot k c)"
  have d: "distinct (map Name (nodes c))" by (simp add: c_def a_def b_def mk_node_def)
  note claim = checkBeforeReboot_finishes_pre_check [OF d, of k c']
  have ok: "fst (checkBeforeReboot k c) = None"
    using claim by (simp add: c_def a_def b_def mk_node_def)
  then have "checkBeforeReboot k c = (None, c')" by (simp add: c'_def prod_eq_iff)
  with claim have "list_all2 (\<lambda>n n'.
              if map_index (Labels n) LabelBeforeReboot = Some constTrue
                 \<and> (\<forall>a\<in>set (beforeRebootAnnotations k).
                       map_index (Annotations n) a = Some constTrue)
              then Name n' = Name n
                 \<and> map_index (Labels n') LabelBeforeReboot = None
                 \<and> (\<forall>l. l \<noteq> LabelBeforeReboot \<longrightarrow> map_index (Labels n') l = map_index (Labels n) l)
                 \<and> map_index (Annotations n') AnnotationOkToReboot = Some constTrue
                 \<and> (\<forall>a. a \<noteq> AnnotationOkToReboot \<longrightarrow>
                       map_index (Annotations n') a
                         = (if a \<in> set (beforeRebootAnnotations k) then None
                            else map_index (Annotations n) a))
              else n' = n) (nodes c) (nodes c')" by blast
  then have "map_index (Labels (nodes c' ! 0)) ''before-reboot'' = None
       \<and> map_index (Annotations (nodes c' ! 0)) ''healthy'' = None
       \<and> map_index (Annotations (nodes c' ! 0)) ''reboot-ok'' = Some ''true''
       \<and> map_index (Annotations (nodes c' ! 0)) ''reboot-needed'' = Some ''true''
       \<and> nodes c' ! 1 = b"
    by (auto simp: c_def a_def b_def k_def mk_node_def list_all2_Cons1 map_index_def constants_defs)
  with ok show ?thesis
    unfolding Let_def k_def [symmetric] a_def [symmetric] b_def [symmetric] c_def [symmetric]
      c'_def [symmetric] by simp
qed

text \<open>
  Claim C6, as stated, ends with the node back in Idle. A node in post-check whose
  agent has already asked for the next reboot (\<open>reboot-needed=true\<close>) is released by
  \<open>checkAfterReboot\<close> like any other, and is then in WantsReboot, not Idle.
\<close>

theorem checkAfterReboot_not_idle:
  "(let k = \<lparr>beforeRebootAnnotations = [], afterRebootAnnotations = [''healthy''],
              rebootWindow = None\<rparr>;
        a = mk_node ''a'' [(''after-reboot'', ''true'')]
              [(''reboot-ok'', ''true''), (''reboot-needed'', ''true''), (''healthy'', ''true'')];
        c = \<lparr>nodes = [a], responses = []\<rparr>;
        c' = snd (checkAfterReboot k c)
    in hasPostLabel a \<and> hasAllAnnotations a (afterRebootAnnotations k)
       \<and> fst (checkAfterReboot k c) = None
       \<and> map_index (Annotations (nodes c' ! 0)) ''reboot-ok'' = Some ''false''
       \<and> WantsReboot (nodes c' ! 0) \<and> \<not> Idle (nodes c' ! 0))"
proof -
  define k where "k = \<lparr>beforeRebootAnnotations = [], afterRebootAnnotations = [''healthy''],
              rebootWindow = None\<rparr>"
  define a where "a = mk_node ''a'' [(''after-reboot'', ''true'')]
              [(''reboot-ok'', ''true''), (''reboot-needed'', ''true''), (''healthy'', ''true'')]"
  define c where "c = \<lparr>nodes = [a], responses = []\<rparr>"
  have post: "hasPostLabel a" and all: "hasAllAnnotations a (afterRebootAnnotations k)"
    by (simp_all add: hasPostLabel_iff a_def k_def mk_node_def map_index_def constants_defs)
  have "checkAfterReboot k c
      = (None, c\<lparr>nodes := [the (checkAfterReboot_update k a)]\<rparr>)"
    using post all by (simp add: checkAfterReboot_served c_def a_def mk_node_def)
  moreover have "checkAfterReboot_update k a \<noteq> None" by (simp add: a_def mk_node_def)
  then obtain a' where a': "checkAfterReboot_update k a = Some a'" by blast
  moreover from checkAfterReboot_update_result [OF a']
  have "map_index (Annotations a') ''reboot-ok'' = Some ''false''" and "WantsReboot a'"
    by (simp_all add: WantsReboot_def wantsReboot_minus_label_iff hasPreLabel_iff a_def k_def
        mk_node_def map_index_def constants_defs)
  ultimately show ?thesis
    using post all
    unfolding Let_def k_def [symmetric] a_def [symmetric] c_def [symmetric]
    by (simp add: Idle_def)
qed

text \<open>
  Claim C6, amended. A successful \<open>checkAfterReboot\<close> takes from every node that carries
  \<open>after-reboot=true\<close> and has every configured post-check annotation equal to "true"
  the label and the configured post-check annotations and sets \<open>reboot-ok=false\<close>; all
  other nodes are unchanged. The released node is no longer in PostCheck, Admitted or
  JustRebooted; it is Idle exactly when it is neither in PreCheck nor in WantsReboot.
  When the store serves every call and no annotation map is nil, the phase succeeds.
\<close>

theorem checkAfterReboot_finishes_post_check:
  assumes "distinct (map Name (nodes c))"
  shows "(responses c = [] \<and> (\<forall>n\<in>set (nodes c). Annotations n \<noteq> None)
            \<longrightarrow> fst (checkAfterReboot k c) = None)
       \<and> (checkAfterReboot k c = (None, c') \<longrightarrow>
            list_all2 (\<lambda>n n'.
              if map_index (Labels n) LabelAfterReboot = Some constTrue
                 \<and> (\<forall>a\<in>set (afterRebootAnnotations k).
                       map_index (Annotations n) a = Some constTrue)
              then Name n' = Name n
                 \<and> map_index (Labels n') LabelAfterReboot = None
                 \<and> (\<forall>l. l \<noteq> LabelAfterReboot \<longrightarrow> map_index (Labels n') l = map_index (Labels n) l)
                 \<and> map_index (Annotations n') AnnotationOkToReboot = Some constFalse
                 \<and> (\<forall>a. a \<noteq> AnnotationOkToReboot \<longrightarrow>
                       map_index (Annotations n') a
                         = (if a \<in> set (afterRebootAnnotations k) then None
                            else map_index (Annotations n) a))
                 \<and> \<not> hasPostLabel n' \<and> \<not> stillRebooting n' \<and> \<not> JustRebooted n'
                 \<and> Idle n' = (\<not> hasPreLabel n' \<and> \<not> WantsReboot n')
              else n' = n) (nodes c) (nodes c'))"
proof (intro conjI impI)
  assume "responses c = [] \<and> (\<forall>n\<in>set (nodes c). Annotations n \<noteq> None)"
  with assms show "fst (checkAfterReboot k c) = None"
    by (simp add: checkAfterReboot_served)
next
  assume "checkAfterReboot k c = (None, c')"
  from map_Some_list_all2 [OF checkAfterReboot_nodes [OF this assms]]
  show "list_all2 (\<lambda>n n'.
              if map_index (Labels n) LabelAfterReboot = Some constTrue
                 \<and> (\<forall>a\<in>set (afterRebootAnnotations k).
                       map_index (Annotations n) a = Some constTrue)
              then Name n' = Name n
                 \<and> map_index (Labels n') LabelAfterReboot = None
                 \<and> (\<forall>l. l \<noteq> LabelAfterReboot \<longrightarrow> map_index (Labels n') l = map_index (Labels n) l)
                 \<and> map_index (Annotations n') AnnotationOkToReboot = Some constFalse
                 \<and> (\<forall>a. a \<noteq> AnnotationOkToReboot \<longrightarrow>
                       map_index (Annotations n') a
                         = (if a \<in> set (afterRebootAnnotations k) then None
                            else map_index (Annotations n) a))
                 \<and> \<not> hasPostLabel n' \<and> \<not> stillRebooting n' \<and> \<not> JustRebooted n'
                 \<and> Idle n' = (\<not> hasPreLabel n' \<and> \<not> WantsReboot n')
              else n' = n) (nodes c) (nodes c')"
  proof (rule list_all2_mono)
    fix n n'
    assume step: "(if hasPostLabel n \<and> hasAllAnnotations n (afterRebootAnnotations k)
         then checkAfterReboot_update k n else Some n) = Some n'"
    show "if map_index (Labels n) LabelAfterReboot = Some constTrue
                 \<and> (\<forall>a\<in>set (afterRebootAnnotations k).
                       map_index (Annotations n) a = Some constTrue)
              then Name n' = Name n
                 \<and> map_index (Labels n') LabelAfterReboot = None
                 \<and> (\<forall>l. l \<noteq> LabelAfterReboot \<longrightarrow> map_index (Labels n') l = map_index (Labels n) l)
                 \<and> map_index (Annotations n') AnnotationOkToReboot = Some constFalse
                 \<and> (\<forall>a. a \<noteq> AnnotationOkToReboot \<longrightarrow>
                       map_index (Annotations n') a
                         = (if a \<in> set (afterRebootAnnotations k) then None
                            else map_index (Annotations n) a))
                 \<and> \<not> hasPostLabel n' \<and> \<not> stillRebooting n' \<and> \<not> JustRebooted n'
                 \<and> Idle n' = (\<not> hasPreLabel n' \<and> \<not> WantsReboot n')
              else n' = n"
    proof (cases "hasPostLabel n \<and> hasAllAnnotations n (afterRebootAnnotations k)")
      case False
      with step have "n' = n" by simp
      with False show ?thesis by (auto simp: hasPostLabel_iff hasAllAnnotations_iff)
    next
      case True
      with step have upd: "checkAfterReboot_update k n = Some n'" by simp
      note r = checkAfterReboot_update_result [OF upd]
      have ok': "map_index (Annotations n') AnnotationOkToReboot = Some constFalse"
        and lab: "map_index (Labels n') LabelAfterReboot = None"
        by (simp_all add: r)
      have gone: "\<not> hasPostLabel n'" "\<not> stillRebooting n'" "\<not> JustRebooted n'"
        by (simp_all add: hasPostLabel_iff stillRebooting_iff JustRebooted_def justRebooted_iff
            ok' lab)
      then have "Idle n' = (\<not> hasPreLabel n' \<and> \<not> WantsReboot n')"
        by (auto simp: Idle_def)
      with True gone r(1) ok' lab show ?thesis
        by (simp add: hasPostLabel_iff hasAllAnnotations_iff r(2,3))
    qed
  qed
qed

text \<open>
  Two rebooted nodes in post-check, one health gate configured: node a has the gate at
  "true" and is released to Idle, node b has no gate annotation yet and stays.
\<close>

theorem checkAfterReboot_finishes_post_check_witness:
  "(let k = \<lparr>beforeRebootAnnotations = [], afterRebootAnnotations = [''healthy''],
              rebootWindow = None\<rparr>;
        a = mk_node ''a'' [(''after-reboot'', ''true'')]
              [(''reboot-ok'', ''true''), (''reboot-needed'', ''false''),
               (''reboot-in-progress'', ''false''), (''healthy'', ''true'')];
        b = mk_node ''b'' [(''after-reboot'', ''true'')]
              [(''reboot-ok'', ''true''), (''reboot-needed'', ''false''),
               (''reboot-in-progress'', ''false'')];
        c = \<lparr>nodes = [a, b], responses = []\<rparr>;
        c' = snd (checkAfterReboot k c)
    in fst (checkAfterReboot k c) = None
       \<and> map_index (Labels (nodes c' ! 0)) ''after-reboot'' = None
       \<and> map_index (Annotations (nodes c' ! 0)) ''healthy'' = None
       \<and> map_index (Annotations (nodes c' ! 0)) ''reboot-ok'' = Some ''false''
       \<and> Idle (nodes c' ! 0)
       \<and> nodes c' ! 1 = b)"
proof -
  define k where "k = \<lparr>beforeRebootAnnotations = [], afterRebootAnnotations = [''healthy''],
              rebootWindow = None\<rparr>"
  define a where "a = mk_node ''a'' [(''after-reboot'', ''true'')]
              [(''reboot-ok'', ''true''), (''reboot-needed'', ''false''),
               (''reboot-in-progress'', ''false''), (''healthy'', ''true'')]"
  define b where "b = mk_node ''b'' [(''after-reboot'', ''true'')]
              [(''reboot-ok'', ''true''), (''reboot-needed'', ''false''),
               (''reboot-in-progress'', ''false'')]"
  define c where "c = \<lparr>nodes = [a, b], responses = []\<rparr>"
  define c' where "c' = snd (checkAfterReboot k c)"
  have d: "distinct (map Name (nodes c))" by (simp add: c_def a_def b_def mk_node_def)
  note claim = checkAfterReboot_finishes_post_check [OF d, of k c']
  have ok: "fst (checkAfterReboot k c) = None"
    using claim by (simp add: c_def a_def b_def mk_node_def)
  then have "checkAfterReboot k c = (None, c')" by (simp add: c'_def prod_eq_iff)
  with claim have "list_all2 (\<lambda>n n'.
              if map_index (Labels n) LabelAfterReboot = Some constTrue
                 \<and> (\<forall>a\<in>set (afterRebootAnnotations k).
                       map_index (Annotations n) a = Some constTrue)
              then Name n' = Name n
                 \<and> map_index (Labels n') LabelAfterReboot = None
                 \<and> (\<forall>l. l \<noteq> LabelAfterReboot \<longrightarrow> map_index (Labels n') l = map_index (Labels n) l)
                 \<and> map_index (Annotations n') AnnotationOkToReboot = Some constFalse
                 \<and> (\<forall>a. a \<noteq> AnnotationOkToReboot \<longrightarrow>
                       map_index (Annotations n') a
                         = (if a \<in> set (afterRebootAnnotations k) then None
                            else map_index (Annotations n) a))
                 \<and> \<not> hasPostLabel n' \<and> \<not> stillRebooting n' \<and> \<not> JustRebooted n'
                 \<and> Idle n' = (\<not> hasPreLabel n' \<and> \<not> WantsReboot n')
              else n' = n) (nodes c) (nodes c')" by blast
  then have both: "list_all2 (\<lambda>n n'.
              if map_index (Labels n) LabelAfterReboot = Some constTrue
                 \<and> (\<forall>a\<in>set (afterRebootAnnotations k).
                       map_index (Annotations n) a = Some constTrue)
              then Name n' = Name n
                 \<and> map_index (Labels n') LabelAfterReboot = None
                 \<and> (\<forall>l. l \<noteq> LabelAfterReboot \<longrightarrow> map_index (Labels n') l = map_index (Labels n) l)
                 \<and> map_index (Annotations n') AnnotationOkToReboot = Some constFalse
                 \<and> (\<forall>a. a \<noteq> AnnotationOkToReboot \<longrightarrow>
                       map_index (Annotations n') a
                         = (if a \<in> set (afterRebootAnnotations k) then None
                            else map_index (Annotations n) a))
                 \<and> \<not> hasPostLabel n' \<and> \<not> stillRebooting n' \<and> \<not> JustRebooted n'
                 \<and> Idle n' = (\<not> hasPreLabel n' \<and> \<not> WantsReboot n')
              else n' = n) [a, b] (nodes c')" by (simp add: c_def)
  define a' where "a' = nodes c' ! 0"
  from list_all2_nthD [OF both, of 0]
  have a': "map_index (Labels a') LabelAfterReboot = None"
      "\<forall>l. l \<noteq> LabelAfterReboot \<longrightarrow> map_index (Labels a') l = map_index (Labels a) l"
      "map_index (Annotations a') AnnotationOkToReboot = Some constFalse"
      "\<forall>x. x \<noteq> AnnotationOkToReboot \<longrightarrow> map_index (Annotations a') x
          = (if x \<in> set (afterRebootAnnotations k) then None else map_index (Annotations a) x)"
      "Idle a' = (\<not> hasPreLabel a' \<and> \<not> WantsReboot a')"
    by (simp_all add: a'_def [symmetric] a_def k_def mk_node_def map_index_def constants_defs)
  from list_all2_nthD [OF both, of "Suc 0"]
  have b': "nodes c' ! 1 = b"
    by (simp add: b_def k_def mk_node_def map_index_def constants_defs)
  have "map_index (Labels a') LabelBeforeReboot = None"
    using a'(2) by (simp add: a_def mk_node_def map_index_def constants_defs)
  moreover have "map_index (Annotations a') AnnotationRebootNeeded = Some constFalse"
    and "map_index (Annotations a') ''healthy'' = None"
    using a'(4) by (simp_all add: a_def k_def mk_node_def map_index_def constants_defs)
  ultimately have "Idle a'"
    using a'(5) by (simp add: hasPreLabel_iff WantsReboot_def wantsReboot_minus_label_iff)
  with ok b' a' \<open>map_index (Annotations a') ''healthy'' = None\<close> show ?thesis
    unfolding Let_def k_def [symmetric] a_def [symmetric] b_def [symmetric] c_def [symmetric]
      c'_def [symmetric] a'_def [symmetric] by (simp add: constants_defs)
qed

section \<open>Cleanup\<close>

lemma cleanupState_update_result:
  assumes "cleanupState_update k n = Some n'"
  shows "if map_index (Labels n) LabelBeforeReboot \<noteq> None \<and> \<not> wantsReboot_minus_label n
         then Name n' = Name n
            \<and> (\<forall>l. map_index (Labels n') l
                  = (if l = LabelBeforeReboot then None else map_index (Labels n) l))
            \<and> (\<forall>a. map_index (Annotations n') a
                  = (if a \<in> set (beforeRebootAnnotations k) then None
                     else map_index (Annotations n) a))
         else n' = n"
  using assms by (auto simp: cleanupState_update_def wantsReboot_minus_label_def split: if_splits)

text \<open>
  Claim C7. After a successful \<open>cleanupState\<close> every node that carries
  \<open>before-reboot=true\<close> has \<open>reboot-needed=true\<close> and none of \<open>reboot-paused\<close>,
  \<open>reboot-ok\<close>, \<open>reboot-in-progress\<close> equal to "true". The phase relates the nodes
  before and after it one by one: a node that had the label (with whatever value) and
  did not satisfy that predicate has lost the label and every configured pre-check
  annotation, its other labels and annotations kept; every other node is unchanged.
  When the store serves every call the phase succeeds.
\<close>

theorem cleanupState_label_only_while_wanted:
  assumes "distinct (map Name (nodes c))"
  shows "(responses c = [] \<longrightarrow> fst (cleanupState k c) = None)
       \<and> (cleanupState k c = (None, c') \<longrightarrow>
            (\<forall>n'\<in>set (nodes c').
                map_index (Labels n') LabelBeforeReboot = Some constTrue \<longrightarrow>
                  map_index (Annotations n') AnnotationRebootNeeded = Some constTrue
                  \<and> map_index (Annotations n') AnnotationRebootPaused \<noteq> Some constTrue
                  \<and> map_index (Annotations n') AnnotationOkToReboot \<noteq> Some constTrue
                  \<and> map_index (Annotations n') AnnotationRebootInProgress \<noteq> Some constTrue)
          \<and> list_all2 (\<lambda>n n'.
              if map_index (Labels n) LabelBeforeReboot \<noteq> None
                 \<and> \<not> (map_index (Annotations n) AnnotationRebootNeeded = Some constTrue
                      \<and> map_index (Annotations n) AnnotationRebootPaused \<noteq> Some constTrue
                      \<and> map_index (Annotations n) AnnotationOkToReboot \<noteq> Some constTrue
                      \<and> map_index (Annotations n) AnnotationRebootInProgress \<noteq> Some constTrue)
              then Name n' = Name n
                 \<and> (\<forall>l. map_index (Labels n') l
                       = (if l = LabelBeforeReboot then None else map_index (Labels n) l))
                 \<and> (\<forall>a. map_index (Annotations n') a
                       = (if a \<in> set (beforeRebootAnnotations k) then None
                          else map_index (Annotations n) a))
              else n' = n) (nodes c) (nodes c'))"
proof (intro conjI impI)
  assume "responses c = []"
  with assms show "fst (cleanupState k c) = None"
    by (simp add: cleanupState_served)
next
  assume run: "cleanupState k c = (None, c')"
  note all2 = map_Some_list_all2 [OF cleanupState_nodes [OF run assms]]
  show "list_all2 (\<lambda>n n'.
              if map_index (Labels n) LabelBeforeReboot \<noteq> None
                 \<and> \<not> (map_index (Annotations n) AnnotationRebootNeeded = Some constTrue
                      \<and> map_index (Annotations n) AnnotationRebootPaused \<noteq> Some constTrue
                      \<and> map_index (Annotations n) AnnotationOkToReboot \<noteq> Some constTrue
                      \<and> map_index (Annotations n) AnnotationRebootInProgress \<noteq> Some constTrue)
              then Name n' = Name n
                 \<and> (\<forall>l. map_index (Labels n') l
                       = (if l = LabelBeforeReboot then None else map_index (Labels n) l))
                 \<and> (\<forall>a. map_index (Annotations n') a
                       = (if a \<in> set (beforeRebootAnnotations k) then None
                          else map_index (Annotations n) a))
              else n' = n) (nodes c) (nodes c')"
    using all2
  proof (rule list_all2_mono)
    fix n n' assume "cleanupState_update k n = Some n'"
    from cleanupState_update_result [OF this]
    show "if map_index (Labels n) LabelBeforeReboot \<noteq> None
                 \<and> \<not> (map_index (Annotations n) AnnotationRebootNeeded = Some constTrue
                      \<and> map_index (Annotations n) AnnotationRebootPaused \<noteq> Some constTrue
                      \<and> map_index (Annotations n) AnnotationOkToReboot \<noteq> Some constTrue
                      \<and> map_index (Annotations n) AnnotationRebootInProgress \<noteq> Some constTrue)
              then Name n' = Name n
                 \<and> (\<forall>l. map_index (Labels n') l
                       = (if l = LabelBeforeReboot then None else map_index (Labels n) l))
                 \<and> (\<forall>a. map_index (Annotations n') a
                       = (if a \<in> set (beforeRebootAnnotations k) then None
                          else map_index (Annotations n) a))
              else n' = n"
      unfolding wantsReboot_minus_label_iff .
  qed
  show "\<forall>n'\<in>set (nodes c').
          map_index (Labels n') LabelBeforeReboot = Some constTrue \<longrightarrow>
            map_index (Annotations n') AnnotationRebootNeeded = Some constTrue
            \<and> map_index (Annotations n') AnnotationRebootPaused \<noteq> Some constTrue
            \<and> map_index (Annotations n') AnnotationOkToReboot \<noteq> Some constTrue
            \<and> map_index (Annotations n') AnnotationRebootInProgress \<noteq> Some constTrue"
  proof (intro ballI impI)
    fix n' assume n': "n' \<in> set (nodes c')"
      and lab: "map_index (Labels n') LabelBeforeReboot = Some constTrue"
    from n' obtain i where i: "i < length (nodes c')" "nodes c' ! i = n'"
      by (auto simp: in_set_conv_nth)
    from all2 i have "cleanupState_update k (nodes c ! i) = Some n'"
      by (auto dest: list_all2_nthD2)
    from cleanupState_update_result [OF this] lab
    have "wantsReboot_minus_label n'"
      by (auto split: if_splits)
    then show "map_index (Annotations n') AnnotationRebootNeeded = Some constTrue
            \<and> map_index (Annotations n') AnnotationRebootPaused \<noteq> Some constTrue
            \<and> map_index (Annotations n') AnnotationOkToReboot \<noteq> Some constTrue
            \<and> map_index (Annotations n') AnnotationRebootInProgress \<noteq> Some constTrue"
      by (simp add: wantsReboot_minus_label_iff)
  qed
qed

text \<open>
  Two nodes in pre-check with a pending health gate; node a has been paused. Cleanup
  takes the label and the gate annotation from a, leaves \<open>reboot-ok\<close> unset and leaves
  b alone.
\<close>

theorem cleanupState_label_only_while_wanted_witness:
  "(let k = \<lparr>beforeRebootAnnotations = [''healthy''], afterRebootAnnotations = [],
              rebootWindow = None\<rparr>;
        a = mk_node ''a'' [(''before-reboot'', ''true'')]
              [(''reboot-needed'', ''true''), (''reboot-paused'', ''true''),
               (''healthy'', ''false'')];
        b = mk_node ''b'' [(''before-reboot'', ''true'')]
              [(''reboot-needed'', ''true''), (''healthy'', ''false'')];
        c = \<lparr>nodes = [a, b], responses = []\<rparr>;
        c' = snd (cleanupState k c)
    in fst (cleanupState k c) = None
       \<and> map_index (Labels (nodes c' ! 0)) ''before-reboot'' = None
       \<and> map_index (Annotations (nodes c' ! 0)) ''healthy'' = None
       \<and> map_index (Annotations (nodes c' ! 0)) ''reboot-paused'' = Some ''true''
       \<and> map_index (Annotations (nodes c' ! 0)) ''reboot-ok'' = None
       \<and> nodes c' ! 1 = b)"
proof -
  define k where "k = \<lparr>beforeRebootAnnotations = [''healthy''], afterRebootAnnotations = [],
              rebootWindow = None\<rparr>"
  define a where "a = mk_node ''a'' [(''before-reboot'', ''true'')]
              [(''reboot-needed'', ''true''), (''reboot-paused'', ''true''),
               (''healthy'', ''false'')]"
  define b where "b = mk_node ''b'' [(''before-reboot'', ''true'')]
              [(''reboot-needed'', ''true''), (''healthy'', ''false'')]"
  define c where "c = \<lparr>nodes = [a, b], responses = []\<rparr>"
  define c' where "c' = snd (cleanupState k c)"
  have d: "distinct (map Name (nodes c))" by (simp add: c_def a_def b_def mk_node_def)
  note claim = cleanupState_label_only_while_wanted [OF d, of k c']
  have ok: "fst (cleanupState k c) = None"
    using claim by (simp add: c_def)
  then have "cleanupState k c = (None, c')" by (simp add: c'_def prod_eq_iff)
  with claim have both: "list_all2 (\<lambda>n n'.
              if map_index (Labels n) LabelBeforeReboot \<noteq> None
                 \<and> \<not> (map_index (Annotations n) AnnotationRebootNeeded = Some constTrue
                      \<and> map_index (Annotations n) AnnotationRebootPaused \<noteq> Some constTrue
                      \<and> map_index (Annotations n) AnnotationOkToReboot \<noteq> Some constTrue
                      \<and> map_index (Annotations n) AnnotationRebootInProgress \<noteq> Some constTrue)
              then Name n' = Name n
                 \<and> (\<forall>l. map_index (Labels n') l
                       = (if l = LabelBeforeReboot then None else map_index (Labels n) l))
                 \<and> (\<forall>a. map_index (Annotations n') a
                       = (if a \<in> set (beforeRebootAnnotations k) then None
                          else map_index (Annotations n) a))
              else n' = n) [a, b] (nodes c')" by (simp add: c_def)
  define a' where "a' = nodes c' ! 0"
  from list_all2_nthD [OF both, of 0]
  have a': "\<forall>l. map_index (Labels a') l
              = (if l = LabelBeforeReboot then None else map_index (Labels a) l)"
      "\<forall>x. map_index (Annotations a') x
          = (if x \<in> set (beforeRebootAnnotations k) then None else map_index (Annotations a) x)"
    by (simp_all add: a'_def [symmetric] a_def k_def mk_node_def map_index_def constants_defs)
  from list_all2_nthD [OF both, of "Suc 0"]
  have b': "nodes c' ! 1 = b"
    by (simp add: b_def k_def mk_node_def map_index_def constants_defs)
  have "map_index (Labels a') ''before-reboot'' = None"
    and "map_index (Annotations a') ''healthy'' = None"
    and "map_index (Annotations a') ''reboot-paused'' = Some ''true''"
    and "map_index (Annotations a') ''reboot-ok'' = None"
    by (simp_all only: a')
      (simp_all add: a_def k_def mk_node_def map_index_def constants_defs)
  with ok b' show ?thesis
    unfolding Let_def k_def [symmetric] a_def [symmetric] b_def [symmetric] c_def [symmetric]
      c'_def [symmetric] a'_def [symmetric] by simp
qed

section \<open>The grant is not re-checked\<close>



section \<open>Admission and the reboot window\<close>

lemma mk_node_simps [simp]:
  "Name (mk_node name ls as) = name"
  "Labels (mk_node name ls as) \<noteq> None"
  "Annotations (mk_node name ls as) \<noteq> None"
  "map_index (Labels (mk_node name ls as)) l = map_of ls l"
  "map_index (Annotations (mk_node name ls as)) a = map_of as a"
  by (simp_all add: mk_node_def map_index_def)

text \<open>
  Claim C4. Outside the reboot window no node should be moved into PreCheck. The
  window below has its most recent occurrence from 0 to 3600. At time 7200 that
  occurrence has ended, the time is outside the window, and \<open>markBeforeReboot\<close> labels
  the node that wants a reboot; at time 1800, inside the window, it changes nothing.
  \<open>markBeforeReboot\<close> does skip when \<open>insideRebootWindow\<close> answers false
  (\<open>markBeforeReboot_outside\<close>); the answer is the inverted one of claim C1.
\<close>

theorem markBeforeReboot_admits_outside_window:
  "(let w = (\<lambda>now. \<lparr>Start = 0, End = 3600\<rparr>);
        k = \<lparr>beforeRebootAnnotations = [], afterRebootAnnotations = [],
             rebootWindow = Some w\<rparr>;
        a = mk_node ''a'' [] [(''reboot-needed'', ''true'')];
        c = \<lparr>nodes = [a], responses = []\<rparr>
    in \<not> After (End (w 7200)) 7200
       \<and> fst (markBeforeReboot k 7200 7200 c) = None
       \<and> map_index (Labels (nodes (snd (markBeforeReboot k 7200 7200 c)) ! 0)) ''before-reboot''
           = Some ''true''
       \<and> After (End (w 1800)) 1800
       \<and> markBeforeReboot k 1800 1800 c = (None, c))"
proof -
  define w :: Periodic where "w = (\<lambda>now. \<lparr>Start = 0, End = 3600\<rparr>)"
  define k where "k = \<lparr>beforeRebootAnnotations = [], afterRebootAnnotations = [],
             rebootWindow = Some w\<rparr>"
  define a where "a = mk_node ''a'' [] [(''reboot-needed'', ''true'')]"
  define c where "c = \<lparr>nodes = [a], responses = []\<rparr>"
  have times: "\<not> After (End (w 7200)) 7200" "After (End (w 1800)) 1800"
    and inside: "insideRebootWindow k 7200 7200" "\<not> insideRebootWindow k 1800 1800"
    by (simp_all add: insideRebootWindow_def After_def w_def k_def)
  have a: "wantsReboot_minus_label a" "\<not> hasPreLabel a" "\<not> hasPostLabel a" "\<not> stillRebooting a"
    by (simp_all add: wantsReboot_minus_label_iff hasPreLabel_iff hasPostLabel_iff
        stillRebooting_iff a_def constants_defs)
  then have chosen: "rebootableNodes (nodes c) = Some [a]"
    by (simp add: rebootableNodes_def remainingRebootingCapacity_sum nodesRequiringReboot_eq
        maxRebootingNodes_def c_def)
  have "markBeforeReboot k 7200 7200 c
      = (None, c\<lparr>nodes := [the (mark_update LabelBeforeReboot (beforeRebootAnnotations k) a)]\<rparr>)"
    using markBeforeReboot_served [OF _ _ inside(1) chosen]
    by (simp add: c_def a_def)
  moreover obtain a' where a': "mark_update LabelBeforeReboot (beforeRebootAnnotations k) a = Some a'"
    by (cases "mark_update LabelBeforeReboot (beforeRebootAnnotations k) a") (auto simp: a_def)
  moreover have "map_index (Labels a') ''before-reboot'' = Some ''true''"
    using mark_update_result(2) [OF a', of LabelBeforeReboot] by (simp add: constants_defs)
  moreover have "markBeforeReboot k 1800 1800 c = (None, c)"
    using inside(2) by (simp add: markBeforeReboot_def nc_List_served c_def)
  ultimately show ?thesis
    using times
    unfolding Let_def w_def [symmetric] k_def [symmetric] a_def [symmetric] c_def [symmetric]
    by simp
qed

section \<open>The bound on nodes in flight\<close>

lemma names_kept:
  assumes "map Some ns' = map g ns" and "\<And>n n'. g n = Some n' \<Longrightarrow> Name n' = Name n"
  shows "map Name ns' = map Name ns"
  using assms(1)
proof (induction ns arbitrary: ns')
  case Nil
  then show ?case by simp
next
  case (Cons n ns)
  then obtain m ms where "ns' = m # ms" "g n = Some m" "map Some ms = map g ns" by auto
  with Cons.IH [of ms] assms(2) [of n m] show ?case by simp
qed

lemma cleanupState_names:
  assumes "cleanupState k c = (None, c')" and "distinct (map Name (nodes c))"
  shows "map Name (nodes c') = map Name (nodes c)"
  using cleanupState_nodes [OF assms] by (rule names_kept) (rule cleanupState_update_Name)

lemma checkAfterReboot_names:
  assumes "checkAfterReboot k c = (None, c')" and "distinct (map Name (nodes c))"
  shows "map Name (nodes c') = map Name (nodes c)"
  using checkAfterReboot_nodes [OF assms]
  by (rule names_kept) (auto split: if_splits dest: checkAfterReboot_update_Name)

lemma markAfterReboot_names:
  assumes "markAfterReboot k c = (None, c')" and "distinct (map Name (nodes c))"
  shows "map Name (nodes c') = map Name (nodes c)"
  using markAfterReboot_nodes [OF assms]
  by (rule names_kept) (auto split: if_splits dest: mark_update_Name)

lemma checkBeforeReboot_names:
  assumes "checkBeforeReboot k c = (None, c')" and "distinct (map Name (nodes c))"
  shows "map Name (nodes c') = map Name (nodes c)"
  using checkBeforeReboot_nodes [OF assms]
  by (rule names_kept) (auto split: if_splits dest: checkBeforeReboot_update_Name)

lemma markBeforeReboot_names:
  assumes "markBeforeReboot k now1 now2 c = (None, c')" and "distinct (map Name (nodes c))"
  shows "map Name (nodes c') = map Name (nodes c)"
  using markBeforeReboot_nodes [OF assms]
proof (elim disjE conjE exE)
  assume "nodes c' = nodes c"
  then show ?thesis by simp
next
  fix chosen
  assume "map Some (nodes c')
     = map (\<lambda>m. if m \<in> set chosen
                then mark_update LabelBeforeReboot (beforeRebootAnnotations k) m
                else Some m) (nodes c)"
  then show ?thesis
    by (rule names_kept) (auto split: if_splits dest: mark_update_Name)
qed

lemma process_phases:
  assumes "process k now1 now2 c = (None, c')"
  obtains c1 c2 c3 c4 where "cleanupState k c = (None, c1)" "checkAfterReboot k c1 = (None, c2)"
    "markAfterReboot k c2 = (None, c3)" "checkBeforeReboot k c3 = (None, c4)"
    "markBeforeReboot k now1 now2 c4 = (None, c')"
  using assms by (auto simp: process_def split: prod.splits option.splits)

lemma process_phases_distinct:
  assumes "process k now1 now2 c = (None, c')" and "distinct (map Name (nodes c))"
  obtains c1 c2 c3 c4 where "cleanupState k c = (None, c1)" "checkAfterReboot k c1 = (None, c2)"
    "markAfterReboot k c2 = (None, c3)" "checkBeforeReboot k c3 = (None, c4)"
    "markBeforeReboot k now1 now2 c4 = (None, c')"
    "distinct (map Name (nodes c1))" "distinct (map Name (nodes c2))"
    "distinct (map Name (nodes c3))" "distinct (map Name (nodes c4))"
    "distinct (map Name (nodes c'))"
proof -
  from process_phases [OF assms(1)] obtain c1 c2 c3 c4 where
    ph: "cleanupState k c = (None, c1)" "checkAfterReboot k c1 = (None, c2)"
    "markAfterReboot k c2 = (None, c3)" "checkBeforeReboot k c3 = (None, c4)"
    "markBeforeReboot k now1 now2 c4 = (None, c')" by blast
  have d1: "distinct (map Name (nodes c1))"
    using cleanupState_names [OF ph(1) assms(2)] assms(2) by simp
  have d2: "distinct (map Name (nodes c2))"
    using checkAfterReboot_names [OF ph(2) d1] d1 by simp
  have d3: "distinct (map Name (nodes c3))"
    using markAfterReboot_names [OF ph(3) d2] d2 by simp
  have d4: "distinct (map Name (nodes c4))"
    using checkBeforeReboot_names [OF ph(4) d3] d3 by simp
  have d5: "distinct (map Name (nodes c'))"
    using markBeforeReboot_names [OF ph(5) d4] d4 by simp
  from that [OF ph d1 d2 d3 d4 d5] show ?thesis .
qed

lemma filter_count_after_updates:
  assumes "map Some ns' = map (\<lambda>m. if P m then f m else Some m) ns"
  shows "length (filter Q ns') \<le> length (filter Q ns) + length (filter P ns)"
  using assms
proof (induction ns arbitrary: ns')
  case Nil
  then show ?case by simp
next
  case (Cons n ns)
  then obtain m ms where ns': "ns' = m # ms"
    and m: "(if P n then f n else Some n) = Some m"
    and ms: "map Some ms = map (\<lambda>m. if P m then f m else Some m) ns" by auto
  from Cons.IH [OF ms] m show ?case
    by (auto simp: ns' split: if_splits)
qed

lemma chosen_count:
  assumes "distinct (map Name ns)"
  shows "length (filter (\<lambda>m. m \<in> set chosen) ns) \<le> length chosen"
proof -
  from assms have "distinct ns" by (simp add: distinct_map)
  then have "length (filter (\<lambda>m. m \<in> set chosen) ns) = card ({m. m \<in> set chosen} \<inter> set ns)"
    by (rule distinct_length_filter)
  also have "\<dots> \<le> card (set chosen)"
    by (intro card_mono) auto
  also have "\<dots> \<le> length chosen" by (rule card_length)
  finally show ?thesis .
qed

lemma markBeforeReboot_in_flight:
  assumes "markBeforeReboot k now1 now2 c = (None, c')" and "distinct (map Name (nodes c))"
  shows "insideRebootWindow k now1 now2 \<Longrightarrow>
           int (length (filter inFlight (nodes c'))) \<le> maxRebootingNodes"
    and "int (length (filter inFlight (nodes c')))
           \<le> max maxRebootingNodes (int (length (filter inFlight (nodes c))))"
proof -
  have inside: "int (length (filter inFlight (nodes c'))) \<le> maxRebootingNodes"
    if "insideRebootWindow k now1 now2"
  proof -
    from markBeforeReboot_nodes [OF assms] that obtain chosen where
      ch: "rebootableNodes (nodes c) = Some chosen"
      and upd: "map Some (nodes c')
        = map (\<lambda>m. if m \<in> set chosen
                   then mark_update LabelBeforeReboot (beforeRebootAnnotations k) m
                   else Some m) (nodes c)" by blast
    have "length (filter inFlight (nodes c'))
        \<le> length (filter inFlight (nodes c)) + length (filter (\<lambda>m. m \<in> set chosen) (nodes c))"
      using upd by (rule filter_count_after_updates)
    also have "\<dots> \<le> length (filter inFlight (nodes c)) + length chosen"
      using chosen_count [OF assms(2)] by simp
    finally have "int (length (filter inFlight (nodes c')))
        \<le> int (length (filter inFlight (nodes c))) + int (length chosen)" by simp
    also have "\<dots> \<le> int (length (filter inFlight (nodes c))) + remainingRebootingCapacity (nodes c)"
      using rebootableNodes_subset(4) [OF ch] by simp
    also have "\<dots> \<le> maxRebootingNodes"
      using inFlight_le_counted [of "nodes c"] by (simp add: remainingRebootingCapacity_sum)
    finally show ?thesis .
  qed
  then show "insideRebootWindow k now1 now2 \<Longrightarrow>
           int (length (filter inFlight (nodes c'))) \<le> maxRebootingNodes" .
  show "int (length (filter inFlight (nodes c')))
           \<le> max maxRebootingNodes (int (length (filter inFlight (nodes c))))"
  proof (cases "insideRebootWindow k now1 now2")
    case True
    with inside show ?thesis by simp
  next
    case False
    with markBeforeReboot_nodes [OF assms] show ?thesis by simp
  qed
qed

text \<open>
  What the capacity gate of the admission phase gives. From a store with distinct node
  names, a pass that returns without an error and whose admission phase was not skipped
  by the window check ends with at most \<open>maxRebootingNodes\<close> nodes in flight, and an
  admission phase that returns without an error does not raise the number of nodes in
  flight above the larger of \<open>maxRebootingNodes\<close> and the number it found. Both rest on
  the panic of \<open>rebootableNodes\<close>: when the three lists hold more nodes than
  \<open>maxRebootingNodes\<close> the capacity is negative, \<open>make\<close> panics and the pass does
  not return.
\<close>

lemma process_in_flight_bound:
  assumes "distinct (map Name (nodes c))"
  shows "(process k now1 now2 c = (None, c') \<and> insideRebootWindow k now1 now2 \<longrightarrow>
            int (length (filter inFlight (nodes c'))) \<le> maxRebootingNodes)
       \<and> (markBeforeReboot k now1 now2 c = (None, c') \<longrightarrow>
            int (length (filter inFlight (nodes c')))
              \<le> max maxRebootingNodes (int (length (filter inFlight (nodes c)))))"
proof (intro conjI impI)
  assume "process k now1 now2 c = (None, c') \<and> insideRebootWindow k now1 now2"
  then have run: "process k now1 now2 c = (None, c')" and inside: "insideRebootWindow k now1 now2"
    by simp_all
  from process_phases_distinct [OF run assms] obtain c4 where
    "markBeforeReboot k now1 now2 c4 = (None, c')" "distinct (map Name (nodes c4))" by metis
  from markBeforeReboot_in_flight(1) [OF this inside]
  show "int (length (filter inFlight (nodes c'))) \<le> maxRebootingNodes" .
next
  assume "markBeforeReboot k now1 now2 c = (None, c')"
  from markBeforeReboot_in_flight(2) [OF this assms]
  show "int (length (filter inFlight (nodes c')))
          \<le> max maxRebootingNodes (int (length (filter inFlight (nodes c))))" .
qed

section \<open>The pass on a store that serves every call\<close>

lemma Matches_wantsRebootSelector:
  "Matches wantsRebootSelector m =
     (map_index m AnnotationRebootNeeded = Some constTrue
      \<and> map_index m AnnotationRebootPaused \<noteq> Some constTrue
      \<and> map_index m AnnotationOkToReboot \<noteq> Some constTrue
      \<and> map_index m AnnotationRebootInProgress \<noteq> Some constTrue)"
  by (simp add: Matches_def wantsRebootSelector_def fields_Get_eq_iff)

lemma allocated_mk_node [simp]: "allocated (mk_node name ls as)"
  by (simp add: allocated_def mk_node_def)

lemma updated_the: "f n \<noteq> None \<Longrightarrow> the (f n) = updated f n"
  by (auto simp: updated_def)

lemma delete_all_Some_ex [simp]: "(\<exists>y. delete_all as m = Some y) = (m \<noteq> None)"
  using delete_all_nil [of as m] by (cases "delete_all as m") auto

lemma updated_allocated:
  "allocated n \<Longrightarrow> allocated (updated (cleanupState_update k) n)"
  "allocated n \<Longrightarrow> allocated (updated (checkAfterReboot_update k) n)"
  "allocated n \<Longrightarrow> allocated (updated (checkBeforeReboot_update k) n)"
  "allocated n \<Longrightarrow> allocated (updated (mark_update label annotations) n)"
  by (auto simp: allocated_def updated_def cleanupState_update_def checkAfterReboot_update_def
      checkBeforeReboot_update_def mark_update_def map_assign_def map_delete_def
      split: option.splits)

lemma updated_Name:
  "Name (updated (cleanupState_update k) n) = Name n"
  "Name (updated (checkAfterReboot_update k) n) = Name n"
  "Name (updated (checkBeforeReboot_update k) n) = Name n"
  "Name (updated (mark_update label annotations) n) = Name n"
  by (auto simp: updated_def cleanupState_update_def checkAfterReboot_update_def
      checkBeforeReboot_update_def mark_update_def split: option.splits)

lemma map_if_names:
  assumes "\<And>m. Name (g m) = Name m"
  shows "map Name (map (\<lambda>m. if sel m then g m else m) ns) = map Name ns"
  by (induction ns) (simp_all add: assms)

lemma process_served_admission:
  assumes served: "responses c = []" and dist: "distinct (map Name (nodes c))"
    and alloc: "\<forall>n\<in>set (nodes c). allocated n"
  shows "process k now1 now2 c
       = markBeforeReboot k now1 now2
           (c\<lparr>nodes := finish_pre_check_nodes k
              (enter_post_check_nodes k (finish_post_check_nodes k (cleanup_nodes k (nodes c))))\<rparr>)"
    and "distinct (map Name (finish_pre_check_nodes k
              (enter_post_check_nodes k (finish_post_check_nodes k (cleanup_nodes k (nodes c))))))"
    and "\<forall>n\<in>set (finish_pre_check_nodes k
              (enter_post_check_nodes k (finish_post_check_nodes k (cleanup_nodes k (nodes c))))).
           allocated n"
proof -
  define ns1 where "ns1 = cleanup_nodes k (nodes c)"
  define ns2 where "ns2 = finish_post_check_nodes k ns1"
  define ns3 where "ns3 = enter_post_check_nodes k ns2"
  define ns4 where "ns4 = finish_pre_check_nodes k ns3"
  note ns_defs = ns1_def [unfolded cleanup_nodes_def] ns2_def [unfolded finish_post_check_nodes_def]
    ns3_def [unfolded enter_post_check_nodes_def] ns4_def [unfolded finish_pre_check_nodes_def]
  have a1: "\<forall>n\<in>set ns1. allocated n" using alloc by (auto simp: ns_defs(1) updated_allocated)
  have a2: "\<forall>n\<in>set ns2. allocated n" using a1 by (auto simp: ns_defs(2) updated_allocated)
  have a3: "\<forall>n\<in>set ns3. allocated n" using a2 by (auto simp: ns_defs(3) updated_allocated)
  have a4: "\<forall>n\<in>set ns4. allocated n" using a3 by (auto simp: ns_defs(4) updated_allocated)
  have d1: "distinct (map Name ns1)"
    using dist by (simp add: ns_defs(1) comp_def updated_Name)
  have d2: "distinct (map Name ns2)"
    using d1 unfolding ns_defs(2) by (simp only: map_if_names [OF updated_Name(2)])
  have d3: "distinct (map Name ns3)"
    using d2 unfolding ns_defs(3) by (simp only: map_if_names [OF updated_Name(4)])
  have d4: "distinct (map Name ns4)"
    using d3 unfolding ns_defs(4) by (simp only: map_if_names [OF updated_Name(3)])
  have p1: "cleanupState k c = (None, c\<lparr>nodes := ns1\<rparr>)"
  proof -
    have "map (\<lambda>m. the (cleanupState_update k m)) (nodes c) = ns1"
      unfolding ns_defs(1) by (rule map_cong) (simp_all add: updated_the cleanupState_update_total)
    with cleanupState_served [OF served dist, of k] show ?thesis by simp
  qed
  have p2: "checkAfterReboot k (c\<lparr>nodes := ns1\<rparr>) = (None, c\<lparr>nodes := ns2\<rparr>)"
  proof -
    have "map (\<lambda>m. if hasPostLabel m \<and> hasAllAnnotations m (afterRebootAnnotations k)
                  then the (checkAfterReboot_update k m) else m) ns1 = ns2"
      unfolding ns_defs(2) using a1
      by (intro map_cong) (auto simp: updated_the allocated_def)
    with checkAfterReboot_served [of "c\<lparr>nodes := ns1\<rparr>" k] served d1 a1 show ?thesis
      by (simp add: allocated_def)
  qed
  have p3: "markAfterReboot k (c\<lparr>nodes := ns2\<rparr>) = (None, c\<lparr>nodes := ns3\<rparr>)"
  proof -
    have "map (\<lambda>m. if justRebooted m \<and> \<not> hasPostLabel m
                  then the (mark_update LabelAfterReboot (afterRebootAnnotations k) m) else m) ns2
          = ns3"
      unfolding ns_defs(3) using a2
      by (intro map_cong) (auto simp: updated_the allocated_def)
    with markAfterReboot_served [of "c\<lparr>nodes := ns2\<rparr>" k] served d2 a2 show ?thesis
      by (simp add: allocated_def)
  qed
  have p4: "checkBeforeReboot k (c\<lparr>nodes := ns3\<rparr>) = (None, c\<lparr>nodes := ns4\<rparr>)"
  proof -
    have "map (\<lambda>m. if hasPreLabel m \<and> hasAllAnnotations m (beforeRebootAnnotations k)
                  then the (checkBeforeReboot_update k m) else m) ns3 = ns4"
      unfolding ns_defs(4) using a3
      by (intro map_cong) (auto simp: updated_the allocated_def)
    with checkBeforeReboot_served [of "c\<lparr>nodes := ns3\<rparr>" k] served d3 a3 show ?thesis
      by (simp add: allocated_def)
  qed
  have n4: "ns4 = finish_pre_check_nodes k
      (enter_post_check_nodes k (finish_post_check_nodes k (cleanup_nodes k (nodes c))))"
    by (simp only: ns1_def ns2_def ns3_def ns4_def)
  from p1 p2 p3 p4 show "process k now1 now2 c
       = markBeforeReboot k now1 now2
           (c\<lparr>nodes := finish_pre_check_nodes k
              (enter_post_check_nodes k (finish_post_check_nodes k (cleanup_nodes k (nodes c))))\<rparr>)"
    unfolding n4 [symmetric] by (simp add: process_def)
  from d4 show "distinct (map Name (finish_pre_check_nodes k
              (enter_post_check_nodes k (finish_post_check_nodes k (cleanup_nodes k (nodes c))))))"
    unfolding n4 .
  from a4 show "\<forall>n\<in>set (finish_pre_check_nodes k
              (enter_post_check_nodes k (finish_post_check_nodes k (cleanup_nodes k (nodes c))))).
           allocated n"
    unfolding n4 .
qed

lemma process_served:
  assumes served: "responses c = []" and dist: "distinct (map Name (nodes c))"
    and alloc: "\<forall>n\<in>set (nodes c). allocated n"
    and pass: "pass_nodes k now1 now2 (nodes c) = Some ns'"
  shows "process k now1 now2 c = (None, c\<lparr>nodes := ns'\<rparr>)"
proof -
  define ns4 where "ns4 = finish_pre_check_nodes k
      (enter_post_check_nodes k (finish_post_check_nodes k (cleanup_nodes k (nodes c))))"
  note adm = process_served_admission [OF served dist alloc, where k = k, folded ns4_def]
  note d4 = adm(2) and a4 = adm(3)
  have pn: "pass_nodes k now1 now2 (nodes c) = enter_pre_check_nodes k now1 now2 ns4"
    by (simp only: pass_nodes_def ns4_def)
  have p5: "markBeforeReboot k now1 now2 (c\<lparr>nodes := ns4\<rparr>) = (None, c\<lparr>nodes := ns'\<rparr>)"
  proof (cases "insideRebootWindow k now1 now2")
    case False
    with pass have "ns' = ns4"
      by (simp add: pn enter_pre_check_nodes_def)
    with False served show ?thesis
      by (simp add: markBeforeReboot_def nc_List_served)
  next
    case True
    with pass obtain chosen where ch: "rebootableNodes ns4 = Some chosen"
      and ns': "ns' = map (\<lambda>m. if m \<in> set chosen
                    then updated (mark_update LabelBeforeReboot (beforeRebootAnnotations k)) m
                    else m) ns4"
      by (auto simp: pn enter_pre_check_nodes_def split: option.splits)
    from rebootableNodes_subset(1) [OF ch] a4
    have chl: "\<forall>m\<in>set chosen. Labels m \<noteq> None" by (auto simp: allocated_def)
    have "map (\<lambda>m. if m \<in> set chosen
                  then the (mark_update LabelBeforeReboot (beforeRebootAnnotations k) m) else m) ns4
          = ns'"
      unfolding ns' using chl
      by (intro map_cong) (auto simp: updated_the)
    with markBeforeReboot_served [of "c\<lparr>nodes := ns4\<rparr>" k now1 now2 chosen] served d4 True ch chl
    show ?thesis by simp
  qed
  from adm(1) [of now1 now2] p5 show ?thesis by simp
qed


lemma process_served_panic:
  assumes served: "responses c = []" and dist: "distinct (map Name (nodes c))"
    and alloc: "\<forall>n\<in>set (nodes c). allocated n"
    and pass: "pass_nodes k now1 now2 (nodes c) = None"
  shows "process k now1 now2 c
       = (Some Panic,
          c\<lparr>nodes := finish_pre_check_nodes k
              (enter_post_check_nodes k (finish_post_check_nodes k (cleanup_nodes k (nodes c))))\<rparr>)"
proof -
  define ns4 where "ns4 = finish_pre_check_nodes k
      (enter_post_check_nodes k (finish_post_check_nodes k (cleanup_nodes k (nodes c))))"
  note adm = process_served_admission [OF served dist alloc, where k = k, folded ns4_def]
  from pass have "insideRebootWindow k now1 now2" and "rebootableNodes ns4 = None"
    by (auto simp: pass_nodes_def enter_pre_check_nodes_def ns4_def
        split: if_splits option.splits)
  with served have "markBeforeReboot k now1 now2 (c\<lparr>nodes := ns4\<rparr>)
      = (Some Panic, c\<lparr>nodes := ns4\<rparr>)"
    by (simp add: markBeforeReboot_def nc_List_served)
  with adm(1) [of now1 now2] show ?thesis
    unfolding ns4_def by simp
qed

text \<open>Facts for evaluating a pass on written-out nodes.\<close>

lemmas pass_eval = pass_nodes_def cleanup_nodes_def finish_post_check_nodes_def
  enter_post_check_nodes_def finish_pre_check_nodes_def enter_pre_check_nodes_def
  updated_def cleanupState_update_def
  checkAfterReboot_update_def checkBeforeReboot_update_def mark_update_def
  map_assign_def map_delete_def map_index_def mk_node_def
  hasPreLabel_iff hasPostLabel_iff justRebooted_iff stillRebooting_iff
  Matches_wantsRebootSelector
  wantsReboot_minus_label_iff
  rebootableNodes_def remainingRebootingCapacity_sum nodesRequiringReboot_eq
  maxRebootingNodes_def insideRebootWindow_def After_def constants_defs

section \<open>Two passes in a row\<close>

text \<open>
  Claim C8, as stated: a second pass right after the first changes nothing. With no
  pre-check annotations configured the first pass labels the node that wants a
  reboot, and the second pass, with no write in between, finds the pre-check finished,
  removes the label and sets \<open>reboot-ok=true\<close>.
\<close>

theorem process_twice_differs:
  "(let k = \<lparr>beforeRebootAnnotations = [], afterRebootAnnotations = [], rebootWindow = None\<rparr>;
        c = \<lparr>nodes = [mk_node ''a'' [] [(''reboot-needed'', ''true'')]], responses = []\<rparr>;
        c1 = snd (process k 0 0 c);
        c2 = snd (process k 0 0 c1)
    in fst (process k 0 0 c) = None \<and> fst (process k 0 0 c1) = None
       \<and> map_index (Labels (nodes c1 ! 0)) ''before-reboot'' = Some ''true''
       \<and> map_index (Annotations (nodes c1 ! 0)) ''reboot-ok'' = None
       \<and> map_index (Labels (nodes c2 ! 0)) ''before-reboot'' = None
       \<and> map_index (Annotations (nodes c2 ! 0)) ''reboot-ok'' = Some ''true''
       \<and> nodes c2 \<noteq> nodes c1)"
proof -
  define k where "k = \<lparr>beforeRebootAnnotations = [], afterRebootAnnotations = [],
    rebootWindow = None\<rparr>"
  define a0 where "a0 = mk_node ''a'' [] [(''reboot-needed'', ''true'')]"
  define a1 where "a1 = \<lparr>Name = ''a'', Labels = Some [''before-reboot'' \<mapsto> ''true''],
        Annotations = Some [''reboot-needed'' \<mapsto> ''true'']\<rparr>"
  define c where "c = \<lparr>nodes = [a0], responses = []\<rparr>"
  have "pass_nodes k 0 0 [a0] = Some [a1]"
    by (simp add: k_def a0_def a1_def pass_eval)
  then have p1: "process k 0 0 c = (None, c\<lparr>nodes := [a1]\<rparr>)"
    by (intro process_served) (simp_all add: c_def a0_def allocated_def)
  obtain a2 where a2: "pass_nodes k 0 0 [a1] = Some [a2]"
    and a2_ok: "map_index (Annotations a2) ''reboot-ok'' = Some ''true''"
    and a2_label: "map_index (Labels a2) ''before-reboot'' = None"
    by (simp add: k_def a1_def pass_eval)
  then have p2: "process k 0 0 (c\<lparr>nodes := [a1]\<rparr>) = (None, c\<lparr>nodes := [a2]\<rparr>)"
    using process_served [of "c\<lparr>nodes := [a1]\<rparr>" k 0 0 "[a2]"]
    by (simp add: c_def a1_def allocated_def)
  have a1_facts: "map_index (Labels a1) ''before-reboot'' = Some ''true''"
    "map_index (Annotations a1) ''reboot-ok'' = None"
    by (simp_all add: a1_def map_index_def)
  with a2_ok have "a2 \<noteq> a1" by auto
  with p1 p2 a1_facts a2_ok a2_label show ?thesis
    unfolding Let_def k_def [symmetric] a0_def [symmetric] c_def [symmetric]
    by simp
qed

section \<open>Schedules of agent writes and passes\<close>

lemma map_if_allocated:
  assumes "\<And>m. allocated m \<Longrightarrow> allocated (g m)" and "\<forall>n\<in>set ns. allocated n"
  shows "\<forall>n\<in>set (map (\<lambda>m. if sel m then g m else m) ns). allocated n"
  using assms by auto

lemma phases_kept:
  "map Name (cleanup_nodes k ns) = map Name ns"
  "map Name (finish_post_check_nodes k ns) = map Name ns"
  "map Name (enter_post_check_nodes k ns) = map Name ns"
  "map Name (finish_pre_check_nodes k ns) = map Name ns"
  unfolding cleanup_nodes_def finish_post_check_nodes_def enter_post_check_nodes_def
    finish_pre_check_nodes_def
  by (simp_all add: map_if_names updated_Name)

lemma phases_allocated:
  assumes "\<forall>n\<in>set ns. allocated n"
  shows "\<forall>n\<in>set (cleanup_nodes k ns). allocated n"
    and "\<forall>n\<in>set (finish_post_check_nodes k ns). allocated n"
    and "\<forall>n\<in>set (enter_post_check_nodes k ns). allocated n"
    and "\<forall>n\<in>set (finish_pre_check_nodes k ns). allocated n"
proof -
  show "\<forall>n\<in>set (cleanup_nodes k ns). allocated n"
    using assms by (simp add: cleanup_nodes_def updated_allocated)
  show "\<forall>n\<in>set (finish_post_check_nodes k ns). allocated n"
    unfolding finish_post_check_nodes_def
    using assms
    by (intro map_if_allocated [where g = "updated (checkAfterReboot_update k)"])
      (simp_all add: updated_allocated)
  show "\<forall>n\<in>set (enter_post_check_nodes k ns). allocated n"
    unfolding enter_post_check_nodes_def
    using assms
    by (intro map_if_allocated
        [where g = "updated (mark_update LabelAfterReboot (afterRebootAnnotations k))"])
      (simp_all add: updated_allocated)
  show "\<forall>n\<in>set (finish_pre_check_nodes k ns). allocated n"
    unfolding finish_pre_check_nodes_def
    using assms
    by (intro map_if_allocated [where g = "updated (checkBeforeReboot_update k)"])
      (simp_all add: updated_allocated)
qed

lemma pass_nodes_kept:
  assumes "pass_nodes k now1 now2 ns = Some ns'"
  shows "map Name ns' = map Name ns" and "\<forall>n\<in>set ns. allocated n \<Longrightarrow> \<forall>n\<in>set ns'. allocated n"
proof -
  define ns4 where "ns4 = finish_pre_check_nodes k
          (enter_post_check_nodes k (finish_post_check_nodes k (cleanup_nodes k ns)))"
  have n4: "map Name ns4 = map Name ns"
    by (simp add: ns4_def phases_kept)
  have a4: "\<forall>n\<in>set ns4. allocated n" if "\<forall>n\<in>set ns. allocated n"
    unfolding ns4_def by (intro phases_allocated that)
  from assms have cases: "ns' = ns4 \<or> (\<exists>chosen. ns' = map (\<lambda>m. if m \<in> set chosen
                                then updated (mark_update LabelBeforeReboot
                                                (beforeRebootAnnotations k)) m
                                else m) ns4)"
    by (auto simp: pass_nodes_def enter_pre_check_nodes_def ns4_def split: if_splits option.splits)
  then show "map Name ns' = map Name ns"
  proof (elim disjE exE)
    assume "ns' = ns4"
    with n4 show ?thesis by simp
  next
    fix chosen
    assume "ns' = map (\<lambda>m. if m \<in> set chosen
          then updated (mark_update LabelBeforeReboot (beforeRebootAnnotations k)) m else m) ns4"
    then have "map Name ns' = map Name ns4"
      by (simp only: map_if_names [OF updated_Name(4)])
    with n4 show ?thesis by simp
  qed
  show "\<forall>n\<in>set ns'. allocated n" if "\<forall>n\<in>set ns. allocated n"
    using cases
  proof (elim disjE exE)
    assume "ns' = ns4"
    with a4 [OF that] show ?thesis by simp
  next
    fix chosen
    assume "ns' = map (\<lambda>m. if m \<in> set chosen
          then updated (mark_update LabelBeforeReboot (beforeRebootAnnotations k)) m else m) ns4"
    moreover have "\<forall>n\<in>set (map (\<lambda>m. if m \<in> set chosen
          then updated (mark_update LabelBeforeReboot (beforeRebootAnnotations k)) m else m) ns4).
          allocated n"
      using a4 [OF that]
      by (intro map_if_allocated
          [where g = "updated (mark_update LabelBeforeReboot (beforeRebootAnnotations k))"])
        (simp_all add: updated_allocated)
    ultimately show ?thesis by simp
  qed
qed

lemma agent_sets_kept:
  "map Name (agent_sets name annotation v ns) = map Name ns"
  "\<forall>n\<in>set ns. allocated n \<Longrightarrow> \<forall>n\<in>set (agent_sets name annotation v ns). allocated n"
  by (auto simp: agent_sets_def allocated_def comp_def if_distrib [of Name] cong: if_cong)

lemma run_served:
  assumes "responses c = []" and "distinct (map Name (nodes c))"
    and "\<forall>n\<in>set (nodes c). allocated n"
    and "run_nodes k es (nodes c) = Some ns'"
  shows "run k es c = Some (c\<lparr>nodes := ns'\<rparr>)"
  using assms
proof (induction k es c rule: run.induct)
  case (1 k c)
  then show ?case by simp
next
  case (2 k name annotation v es c)
  from "2.prems" show ?case
    using "2.IH" by (simp add: agent_sets_kept)
next
  case (3 k now1 now2 es c)
  from "3.prems"(4) obtain ns1 where p: "pass_nodes k now1 now2 (nodes c) = Some ns1"
    and r: "run_nodes k es ns1 = Some ns'"
    by (auto split: option.splits)
  from process_served [OF "3.prems"(1-3) p]
  have pr: "process k now1 now2 c = (None, c\<lparr>nodes := ns1\<rparr>)" .
  from pass_nodes_kept [OF p] "3.prems"(2,3)
  have "distinct (map Name ns1)" "\<forall>n\<in>set ns1. allocated n" by simp_all
  with "3.IH" [OF pr [symmetric] refl] pr "3.prems"(1) r
  show ?case by simp
qed

lemma run_nodes_kept:
  assumes "run_nodes k es ns = Some ns'"
  shows "map Name ns' = map Name ns"
    and "\<forall>n\<in>set ns. allocated n \<Longrightarrow> \<forall>n\<in>set ns'. allocated n"
proof -
  have "map Name ns' = map Name ns
      \<and> ((\<forall>n\<in>set ns. allocated n) \<longrightarrow> (\<forall>n\<in>set ns'. allocated n))"
    using assms
  proof (induction k es ns rule: run_nodes.induct)
    case (1 k ns)
    then show ?case by simp
  next
    case (2 k name annotation v es ns)
    from "2.prems" have "run_nodes k es (agent_sets name annotation v ns) = Some ns'" by simp
    from "2.IH" [OF this] show ?case
      using agent_sets_kept [where name = name and annotation = annotation and v = v and ns = ns]
      by simp
  next
    case (3 k now1 now2 es ns)
    from "3.prems" obtain ns1 where p: "pass_nodes k now1 now2 ns = Some ns1"
      and r: "run_nodes k es ns1 = Some ns'"
      by (auto split: option.splits)
    from "3.IH" [OF p r] pass_nodes_kept [OF p] show ?case by simp
  qed
  then show "map Name ns' = map Name ns"
    and "\<forall>n\<in>set ns. allocated n \<Longrightarrow> \<forall>n\<in>set ns'. allocated n"
    by simp_all
qed

lemma run_nodes_append:
  "run_nodes k (es @ es') ns
     = (case run_nodes k es ns of None \<Rightarrow> None | Some ns' \<Rightarrow> run_nodes k es' ns')"
  by (induction k es ns rule: run_nodes.induct) (simp_all split: option.splits)

text \<open>
  Claim C3: after every successful pass at most \<open>maxRebootingNodes\<close> nodes are in
  flight. The capacity is looked at by the admission phase only, and by no other
  phase. The schedule starts from two nodes without labels and annotations and
  consists of agent writes and passes that return without an error; the window opens
  daily for an hour and the post-check waits for the annotation \<open>healthy\<close>. Both
  agents ask for a reboot. Passes one and two label and admit node a. The agent of a
  then withdraws \<open>reboot-needed\<close>, so a is neither still rebooting nor just rebooted
  (\<open>reboot-in-progress\<close> is not yet "false"), and pass three labels node b. The agent
  of a then sets \<open>reboot-in-progress=false\<close>. Pass four runs at a time for which
  \<open>insideRebootWindow\<close> answers false, so admission is skipped: the pass labels a
  with \<open>after-reboot\<close>, admits b with \<open>reboot-ok=true\<close>, and returns without an error
  with two nodes in flight, one more than \<open>maxRebootingNodes\<close>. The next pass for
  which \<open>insideRebootWindow\<close> answers true finds both nodes in flight, computes the
  capacity \<open>-1\<close> and panics in \<open>rebootableNodes\<close>, leaving the two nodes in flight.
\<close>

theorem in_flight_bound_exceeded:
  "(let k = \<lparr>beforeRebootAnnotations = [], afterRebootAnnotations = [''healthy''],
             rebootWindow = Some (\<lambda>now. \<lparr>Start = now div 86400 * 86400,
                                            End = now div 86400 * 86400 + 3600\<rparr>)\<rparr>;
        c = \<lparr>nodes = [mk_node ''a'' [] [], mk_node ''b'' [] []], responses = []\<rparr>;
        schedule =
          [AgentSets ''a'' ''reboot-needed'' ''true'',
           AgentSets ''b'' ''reboot-needed'' ''true'',
           Pass 7200 7200,
           Pass 7230 7230,
           AgentSets ''a'' ''reboot-needed'' ''false'',
           Pass 7260 7260,
           AgentSets ''a'' ''reboot-in-progress'' ''false'',
           Pass 88200 88200]
    in case run k schedule c of
         None \<Rightarrow> False
       | Some c' \<Rightarrow>
           int (length (filter inFlight (nodes c'))) = 2 \<and> maxRebootingNodes = 1
           \<and> hasPostLabel (nodes c' ! 0) \<and> stillRebooting (nodes c' ! 1)
           \<and> \<not> insideRebootWindow k 88200 88200 \<and> insideRebootWindow k 93600 93600
           \<and> remainingRebootingCapacity (nodes c') = - 1
           \<and> fst (process k 93600 93600 c') = Some Panic
           \<and> int (length (filter inFlight (nodes (snd (process k 93600 93600 c'))))) = 2)"
proof -
  define k where "k = \<lparr>beforeRebootAnnotations = [], afterRebootAnnotations = [''healthy''],
             rebootWindow = Some (\<lambda>now. \<lparr>Start = now div 86400 * 86400,
                                            End = now div 86400 * 86400 + 3600\<rparr>)\<rparr>"
  define c where "c = \<lparr>nodes = [mk_node ''a'' [] [], mk_node ''b'' [] []], responses = []\<rparr>"
  define schedule where "schedule =
          [AgentSets ''a'' ''reboot-needed'' ''true'',
           AgentSets ''b'' ''reboot-needed'' ''true'',
           Pass 7200 7200,
           Pass 7230 7230,
           AgentSets ''a'' ''reboot-needed'' ''false'',
           Pass 7260 7260,
           AgentSets ''a'' ''reboot-in-progress'' ''false'',
           Pass 88200 88200]"
  define ns4 where "ns4 ns = finish_pre_check_nodes k
      (enter_post_check_nodes k (finish_post_check_nodes k (cleanup_nodes k ns)))" for ns
  have "\<exists>ns'. run_nodes k schedule (nodes c) = Some ns' \<and> length (filter inFlight ns') = 2
          \<and> hasPostLabel (ns' ! 0) \<and> stillRebooting (ns' ! 1)
          \<and> remainingRebootingCapacity ns' = - 1"
    by (simp add: k_def c_def schedule_def pass_eval agent_sets_def inFlight_def)
  then obtain ns' where ns': "run_nodes k schedule (nodes c) = Some ns'"
    and two: "length (filter inFlight ns') = 2"
    and who: "hasPostLabel (ns' ! 0)" "stillRebooting (ns' ! 1)"
    and cap: "remainingRebootingCapacity ns' = - 1"
    by blast
  have window: "\<not> insideRebootWindow k 88200 88200" "\<not> insideRebootWindow k 88230 88230"
    "insideRebootWindow k 93600 93600"
    by (simp_all add: k_def insideRebootWindow_def After_def)
  have "run_nodes k (schedule @ [Pass 93600 93600]) (nodes c) = None"
    by (simp add: k_def c_def schedule_def pass_eval agent_sets_def inFlight_def)
  with ns' have panic: "pass_nodes k 93600 93600 ns' = None"
    by (simp add: run_nodes_append split: option.splits)
  have "\<exists>ns''. run_nodes k (schedule @ [Pass 88230 88230]) (nodes c) = Some ns''
          \<and> length (filter inFlight ns'') = 2"
    by (simp add: k_def c_def schedule_def pass_eval agent_sets_def inFlight_def)
  with ns' obtain ns'' where "pass_nodes k 88230 88230 ns' = Some ns''"
    and two': "length (filter inFlight ns'') = 2"
    by (auto simp: run_nodes_append split: option.splits)
  with window(2) have left: "ns4 ns' = ns''"
    by (simp add: pass_nodes_def enter_pre_check_nodes_def ns4_def)
  have r: "run k schedule c = Some (c\<lparr>nodes := ns'\<rparr>)"
    using ns' by (intro run_served) (simp_all add: c_def)
  have kept: "distinct (map Name ns')" "\<forall>n\<in>set ns'. allocated n"
    using run_nodes_kept [OF ns'] by (simp_all add: c_def)
  have "process k 93600 93600 (c\<lparr>nodes := ns'\<rparr>) = (Some Panic, c\<lparr>nodes := ns''\<rparr>)"
    using process_served_panic [of "c\<lparr>nodes := ns'\<rparr>" k 93600 93600] kept panic left
    by (simp add: c_def ns4_def)
  with r two two' who cap window show ?thesis
    unfolding Let_def k_def [symmetric] c_def [symmetric] schedule_def [symmetric]
    by (simp add: maxRebootingNodes_def)
qed

end
